theory Spec2Isabelle
  imports Main "HOL-Library.Sublist"
begin

section \<open>Strings\<close>

text \<open>
  A JavaScript string is modelled as a \<open>string\<close> whose characters stand for UTF-16 code
  units below 256 (ASCII and the Latin-1 supplement), one \<open>char\<close> per code unit.
\<close>

definition isWhiteSpace :: "char \<Rightarrow> bool" where
  \<comment> \<open>the class \<open>\s\<close>, also removed by \<open>trim()\<close>, below 256: TAB, LF, VT, FF, CR, SP, NBSP\<close>
  "isWhiteSpace c =
     (let n = (of_char c :: nat)
      in n = 9 \<or> n = 10 \<or> n = 11 \<or> n = 12 \<or> n = 13 \<or> n = 32 \<or> n = 160)"

definition isLineTerminator :: "char \<Rightarrow> bool" where
  \<comment> \<open>the characters below 256 that \<open>.\<close> does not match: LF and CR\<close>
  "isLineTerminator c = (let n = (of_char c :: nat) in n = 10 \<or> n = 13)"

definition toLowerChar :: "char \<Rightarrow> char" where
  \<comment> \<open>\<open>A\<close>..\<open>Z\<close> and the Latin-1 capitals (except the multiplication sign) move up by 32\<close>
  "toLowerChar c =
     (let n = (of_char c :: nat)
      in if (65 \<le> n \<and> n \<le> 90) \<or> (192 \<le> n \<and> n \<le> 222 \<and> n \<noteq> 215)
         then char_of (n + 32) else c)"

definition toLowerCase :: "string \<Rightarrow> string" where
  "toLowerCase s = map toLowerChar s"

definition trim :: "string \<Rightarrow> string" where
  "trim s = rev (dropWhile isWhiteSpace (rev (dropWhile isWhiteSpace s)))"

text \<open>\<open>s.includes(sub)\<close>: some position of \<open>s\<close> starts with \<open>sub\<close>.\<close>

fun includes_str :: "string \<Rightarrow> string \<Rightarrow> bool" where
  "includes_str [] sub = (sub = [])"
| "includes_str (c # cs) sub = (prefix sub (c # cs) \<or> includes_str cs sub)"

text \<open>\<open>s.replace(pat, '')\<close> with a string pattern: the first occurrence is removed.\<close>

fun replace_first :: "string \<Rightarrow> string \<Rightarrow> string" where
  "replace_first [] pat = []"
| "replace_first (c # cs) pat =
     (if prefix pat (c # cs) then drop (length pat) (c # cs) else c # replace_first cs pat)"

section \<open>Component state\<close>

record task =
  task_id :: int
  content :: string
  completed :: bool

text \<open>
  A recognition object, as far as the component can tell one from another: the value of
  \<open>listening\<close> that its handlers read (they are closures of the render whose effect created
  the object), and whether \<open>start()\<close> has been called on it with no \<open>end\<close> delivered since.
\<close>

record recognition =
  closure_listening :: bool
  started :: bool

text \<open>
  The seven \<open>useState\<close> cells of \<open>VoiceToDoApp\<close>, the object in \<open>recognitionRef.current\<close>
  (\<open>None\<close> for \<open>null\<close>: the browser has no speech recognition), and the objects that the
  effect has replaced, the latest first; the engine may still deliver their events.
\<close>

record app_state =
  tasks :: "task list"
  listening :: bool
  transcript :: string
  editedTranscript :: string
  feedback :: string
  processingCommand :: bool
  isEditing :: bool
  recognitionRef :: "recognition option"
  replaced :: "recognition list"

text \<open>
  The state once the component is mounted: the effect has created the first recognition
  object, with \<open>listening = false\<close>. (Where the version with grammar set-up finds
  \<open>SpeechGrammarList\<close>, the status line starts with the message of that set-up instead.)
\<close>

definition initial_state :: "bool \<Rightarrow> app_state" where
  "initial_state supported =
     \<lparr>tasks = [], listening = False, transcript = [], editedTranscript = [],
      feedback = (if supported then [] else ''Speech recognition not supported in this browser''),
      processingCommand = False, isEditing = False,
      recognitionRef =
        (if supported then Some \<lparr>closure_listening = False, started = False\<rparr> else None),
      replaced = []\<rparr>"

section \<open>Task store\<close>

definition addTask :: "int \<Rightarrow> string \<Rightarrow> app_state \<Rightarrow> app_state" where
  \<comment> \<open>\<open>now\<close> is the value \<open>Date.now()\<close> returns\<close>
  "addTask now c s =
     s\<lparr>tasks := tasks s @ [\<lparr>task_id = now, content = c, completed = False\<rparr>]\<rparr>"

definition taskMatches :: "string \<Rightarrow> task \<Rightarrow> bool" where
  \<comment> \<open>\<open>task.content.toLowerCase().includes(taskContent.toLowerCase())\<close>\<close>
  "taskMatches taskContent t =
     includes_str (toLowerCase (content t)) (toLowerCase taskContent)"

text \<open>
  \<open>markTaskAsDone\<close> sets the local \<open>found\<close> inside the updater it hands to \<open>setTasks\<close> and
  reads it right after the call. React runs an updater at once when no update is pending
  on the component and at the next render otherwise; \<open>eager\<close> says which.
\<close>

definition markTaskAsDone :: "bool \<Rightarrow> string \<Rightarrow> app_state \<Rightarrow> app_state" where
  \<open>markTaskAsDone eager taskContent s =
     (let found = (eager \<and> list_ex (taskMatches taskContent) (tasks s));
          s1 = s\<lparr>tasks := map (\<lambda>t. if taskMatches taskContent t
                                     then t\<lparr>completed := True\<rparr> else t) (tasks s)\<rparr>
      in if found
         then s1\<lparr>feedback := ''Marked tasks containing "'' @ taskContent @ ''" as done''\<rparr>
         else s1\<lparr>feedback := ''No tasks found matching "'' @ taskContent @ ''"''\<rparr>)\<close>

text \<open>
  In \<open>deleteTask\<close> both \<open>initialLength\<close> and the later \<open>tasks.length\<close> read the \<open>tasks\<close> of
  the render the handler belongs to; \<open>setTasks\<close> does not change that binding.
\<close>

definition deleteTask :: "string \<Rightarrow> app_state \<Rightarrow> app_state" where
  \<open>deleteTask taskContent s =
     (let initialLength = length (tasks s);
          s1 = s\<lparr>tasks := filter (\<lambda>t. \<not> taskMatches taskContent t) (tasks s)\<rparr>
      in if length (tasks s) \<noteq> initialLength
         then s1\<lparr>feedback := ''Deleted task containing "'' @ taskContent @ ''"''\<rparr>
         else s1\<lparr>feedback := ''No task found matching "'' @ taskContent @ ''"''\<rparr>)\<close>

definition handleManualDelete :: "int \<Rightarrow> app_state \<Rightarrow> app_state" where
  "handleManualDelete i s = s\<lparr>tasks := filter (\<lambda>t. task_id t \<noteq> i) (tasks s)\<rparr>"

definition handleManualToggle :: "int \<Rightarrow> app_state \<Rightarrow> app_state" where
  "handleManualToggle i s =
     s\<lparr>tasks := map (\<lambda>t. if task_id t = i then t\<lparr>completed := \<not> completed t\<rparr> else t) (tasks s)\<rparr>"

definition clearInputs :: "app_state \<Rightarrow> app_state" where
  "clearInputs s =
     s\<lparr>transcript := [], editedTranscript := [], isEditing := False, processingCommand := False\<rparr>"

section \<open>Regular expressions of the command table\<close>

text \<open>
  The patterns of \<open>commandPatterns\<close> are sequences of literal words, \<open>\s+\<close> and at most one
  capture group \<open>(.+)\<close>, all with the flag \<open>i\<close> and none anchored.
\<close>

datatype rx = Lit string | Spaces | Group

text \<open>A greedy \<open>+\<close> over a run of \<open>k\<close> admissible characters tries the lengths \<open>k, k-1, .., 1\<close>.\<close>

definition greedy :: "nat \<Rightarrow> nat list" where
  "greedy k = rev [1..<Suc k]"

fun firstSome :: "(nat \<Rightarrow> 'a option) \<Rightarrow> nat list \<Rightarrow> 'a option" where
  "firstSome f [] = None"
| "firstSome f (n # ns) = (case f n of Some r \<Rightarrow> Some r | None \<Rightarrow> firstSome f ns)"

text \<open>
  Backtracking match of a pattern at the start of \<open>s\<close>; the result is the capture
  (\<open>None\<close> for \<open>undefined\<close>) of the first successful alternative.
\<close>

primrec matchHere :: "rx list \<Rightarrow> string \<Rightarrow> string option \<Rightarrow> string option option" where
  "matchHere [] s cap = Some cap"
| "matchHere (x # r) s cap =
     (case x of
        Lit l \<Rightarrow>
          if toLowerCase (take (length l) s) = toLowerCase l
          then matchHere r (drop (length l) s) cap else None
      | Spaces \<Rightarrow>
          firstSome (\<lambda>n. matchHere r (drop n s) cap)
            (greedy (length (takeWhile isWhiteSpace s)))
      | Group \<Rightarrow>
          firstSome (\<lambda>n. matchHere r (drop n s) (Some (take n s)))
            (greedy (length (takeWhile (\<lambda>c. \<not> isLineTerminator c) s))))"

text \<open>\<open>s.match(p)\<close> for a pattern without the flag \<open>g\<close>: the leftmost start that matches.\<close>

fun regexMatch :: "rx list \<Rightarrow> string \<Rightarrow> string option option" where
  "regexMatch p [] = matchHere p [] None"
| "regexMatch p (c # cs) =
     (case matchHere p (c # cs) None of Some m \<Rightarrow> Some m | None \<Rightarrow> regexMatch p cs)"

section \<open>Command matcher\<close>

record commandPattern =
  name :: string
  pattern :: "rx list"
  altPatterns :: "rx list list"

definition commandPatterns :: "commandPattern list" where
  "commandPatterns =
    [\<lparr>name = ''add'',
      pattern = [Lit ''add'', Spaces, Lit ''task'', Spaces, Group],
      altPatterns = [[Lit ''add'', Spaces, Group],
                     [Lit ''create'', Spaces, Lit ''task'', Spaces, Group],
                     [Lit ''new'', Spaces, Lit ''task'', Spaces, Group]]\<rparr>,
     \<lparr>name = ''mark'',
      pattern = [Lit ''mark'', Spaces, Group, Spaces, Lit ''as'', Spaces, Lit ''done''],
      altPatterns = [[Lit ''complete'', Spaces, Group],
                     [Lit ''finish'', Spaces, Group],
                     [Lit ''check'', Spaces, Lit ''off'', Spaces, Group]]\<rparr>,
     \<lparr>name = ''delete'',
      pattern = [Lit ''delete'', Spaces, Lit ''task'', Spaces, Group],
      altPatterns = [[Lit ''remove'', Spaces, Lit ''task'', Spaces, Group],
                     [Lit ''delete'', Spaces, Group],
                     [Lit ''remove'', Spaces, Group]]\<rparr>,
     \<lparr>name = ''clear'',
      pattern = [Lit ''clear'', Spaces, Lit ''all'', Spaces, Lit ''tasks''],
      altPatterns = [[Lit ''clear'', Spaces, Lit ''tasks''],
                     [Lit ''delete'', Spaces, Lit ''all'', Spaces, Lit ''tasks''],
                     [Lit ''remove'', Spaces, Lit ''all'', Spaces, Lit ''tasks'']]\<rparr>]"

record commandMatch =
  command :: string
  cmd_content :: string

definition orEmpty :: "string option \<Rightarrow> string" where
  \<comment> \<open>\<open>match[1] || ''\<close>\<close>
  "orEmpty cap = (case cap of Some c \<Rightarrow> c | None \<Rightarrow> [])"

fun tryAlts :: "rx list list \<Rightarrow> string \<Rightarrow> string option option" where
  "tryAlts [] s = None"
| "tryAlts (p # ps) s =
     (case regexMatch p s of Some m \<Rightarrow> Some m | None \<Rightarrow> tryAlts ps s)"

fun tryCommands :: "commandPattern list \<Rightarrow> string \<Rightarrow> commandMatch option" where
  "tryCommands [] s = None"
| "tryCommands (cmd # rest) s =
     (case regexMatch (pattern cmd) s of
        Some m \<Rightarrow> Some \<lparr>command = name cmd, cmd_content = orEmpty m\<rparr>
      | None \<Rightarrow>
          (case tryAlts (altPatterns cmd) s of
             Some m \<Rightarrow> Some \<lparr>command = name cmd, cmd_content = orEmpty m\<rparr>
           | None \<Rightarrow> tryCommands rest s))"

definition findBestCommandMatch :: "string \<Rightarrow> commandMatch" where
  "findBestCommandMatch input =
     (let lowerInput = trim (toLowerCase input)
      in case tryCommands commandPatterns lowerInput of
           Some r \<Rightarrow> r
         | None \<Rightarrow> \<lparr>command = ''unknown'', cmd_content = lowerInput\<rparr>)"

section \<open>The command matcher over UTF-16 code units\<close>

text \<open>
  The definitions above read a string as code units below 256, where \<open>toLowerCase\<close> can be
  written out. The matcher is given here a second time, over all code units (natural
  numbers, a code unit being below 65536), with the whole of the classes \<open>\s\<close> and \<open>.\<close>.
  The built-in \<open>toLowerCase\<close> is an argument: what is proved of \<open>findBestCommandMatch16\<close>
  holds whatever function stands for it. The literals of \<open>commandPatterns\<close> are lower-case
  ASCII letters; under the flag \<open>i\<close> such a letter is matched by itself and by its capital
  and by no other code unit, which \<open>foldCase16\<close> expresses.
\<close>

type_synonym string16 = "nat list"

definition units :: "string \<Rightarrow> string16" where
  "units s = map of_char s"

text \<open>The line terminators, which \<open>.\<close> does not match: LF, CR, U+2028, U+2029.\<close>

definition isLineTerminator16 :: "nat \<Rightarrow> bool" where
  "isLineTerminator16 n = (n = 0x0A \<or> n = 0x0D \<or> n = 0x2028 \<or> n = 0x2029)"

text \<open>
  The class \<open>\s\<close>, which is also what \<open>trim()\<close> removes: TAB, VT, FF, the space separators
  (U+0020, U+00A0, U+1680, U+2000 to U+200A, U+202F, U+205F, U+3000), U+FEFF and the line
  terminators.
\<close>

definition isWhiteSpace16 :: "nat \<Rightarrow> bool" where
  "isWhiteSpace16 n =
     (n = 0x09 \<or> n = 0x0B \<or> n = 0x0C \<or> n = 0x20 \<or> n = 0xA0 \<or> n = 0x1680
      \<or> (0x2000 \<le> n \<and> n \<le> 0x200A) \<or> n = 0x202F \<or> n = 0x205F \<or> n = 0x3000
      \<or> n = 0xFEFF \<or> isLineTerminator16 n)"

definition trim16 :: "string16 \<Rightarrow> string16" where
  "trim16 s = rev (dropWhile isWhiteSpace16 (rev (dropWhile isWhiteSpace16 s)))"

definition foldCase16 :: "nat \<Rightarrow> nat" where
  "foldCase16 n = (if 0x41 \<le> n \<and> n \<le> 0x5A then n + 0x20 else n)"

primrec matchHere16 :: "rx list \<Rightarrow> string16 \<Rightarrow> string16 option \<Rightarrow> string16 option option" where
  "matchHere16 [] s cap = Some cap"
| "matchHere16 (x # r) s cap =
     (case x of
        Lit l \<Rightarrow>
          if map foldCase16 (take (length l) s) = map foldCase16 (units l)
          then matchHere16 r (drop (length l) s) cap else None
      | Spaces \<Rightarrow>
          firstSome (\<lambda>n. matchHere16 r (drop n s) cap)
            (greedy (length (takeWhile isWhiteSpace16 s)))
      | Group \<Rightarrow>
          firstSome (\<lambda>n. matchHere16 r (drop n s) (Some (take n s)))
            (greedy (length (takeWhile (\<lambda>c. \<not> isLineTerminator16 c) s))))"

fun regexMatch16 :: "rx list \<Rightarrow> string16 \<Rightarrow> string16 option option" where
  "regexMatch16 p [] = matchHere16 p [] None"
| "regexMatch16 p (c # cs) =
     (case matchHere16 p (c # cs) None of Some m \<Rightarrow> Some m | None \<Rightarrow> regexMatch16 p cs)"

record commandMatch16 =
  command16 :: string
  content16 :: string16

definition orEmpty16 :: "string16 option \<Rightarrow> string16" where
  "orEmpty16 cap = (case cap of Some c \<Rightarrow> c | None \<Rightarrow> [])"

fun tryAlts16 :: "rx list list \<Rightarrow> string16 \<Rightarrow> string16 option option" where
  "tryAlts16 [] s = None"
| "tryAlts16 (p # ps) s =
     (case regexMatch16 p s of Some m \<Rightarrow> Some m | None \<Rightarrow> tryAlts16 ps s)"

fun tryCommands16 :: "commandPattern list \<Rightarrow> string16 \<Rightarrow> commandMatch16 option" where
  "tryCommands16 [] s = None"
| "tryCommands16 (cmd # rest) s =
     (case regexMatch16 (pattern cmd) s of
        Some m \<Rightarrow> Some \<lparr>command16 = name cmd, content16 = orEmpty16 m\<rparr>
      | None \<Rightarrow>
          (case tryAlts16 (altPatterns cmd) s of
             Some m \<Rightarrow> Some \<lparr>command16 = name cmd, content16 = orEmpty16 m\<rparr>
           | None \<Rightarrow> tryCommands16 rest s))"

definition findBestCommandMatch16 :: "(string16 \<Rightarrow> string16) \<Rightarrow> string16 \<Rightarrow> commandMatch16" where
  "findBestCommandMatch16 toLower input =
     (let lowerInput = trim16 (toLower input)
      in case tryCommands16 commandPatterns lowerInput of
           Some r \<Rightarrow> r
         | None \<Rightarrow> \<lparr>command16 = ''unknown'', content16 = lowerInput\<rparr>)"

text \<open>A literal made of the letters a to z only.\<close>

definition lowerLetters :: "string \<Rightarrow> bool" where
  "lowerLetters l \<longleftrightarrow> (\<forall>c \<in> set l. 97 \<le> (of_char c :: nat) \<and> (of_char c :: nat) \<le> 122)"

section \<open>Applying a command\<close>

text \<open>The version of \<open>processVoiceCommand\<close> that dispatches on \<open>findBestCommandMatch\<close>.\<close>

definition processVoiceCommand_regex ::
  "int \<Rightarrow> bool \<Rightarrow> string \<Rightarrow> app_state \<Rightarrow> app_state" where
  \<open>processVoiceCommand_regex now eager cmd s =
     (let m = findBestCommandMatch cmd; cmdType = command m; c = cmd_content m
      in if cmdType = ''add'' then
           (if c \<noteq> [] then (addTask now c s)\<lparr>feedback := ''Added task: "'' @ c @ ''"''\<rparr>
            else s\<lparr>feedback := ''No task content specified''\<rparr>)
         else if cmdType = ''mark'' then
           (if c \<noteq> [] then markTaskAsDone eager c s
            else s\<lparr>feedback := ''No task specified to mark as done''\<rparr>)
         else if cmdType = ''delete'' then
           (if c \<noteq> [] then deleteTask c s
            else s\<lparr>feedback := ''No task specified to delete''\<rparr>)
         else if cmdType = ''clear'' then
           s\<lparr>tasks := [], feedback := ''All tasks cleared''\<rparr>
         else s\<lparr>feedback := ''Didn't recognize command: "'' @ cmd @ ''"''\<rparr>)\<close>

text \<open>The version of \<open>processVoiceCommand\<close> built on \<open>includes\<close> and \<open>replace\<close>.\<close>

definition processVoiceCommand_includes ::
  "int \<Rightarrow> bool \<Rightarrow> string \<Rightarrow> app_state \<Rightarrow> app_state" where
  \<open>processVoiceCommand_includes now eager cmd s =
     (let lowerCommand = toLowerCase cmd
      in if includes_str lowerCommand ''add task'' then
           (let taskContent = trim (replace_first lowerCommand ''add task'')
            in if taskContent \<noteq> []
               then (addTask now taskContent s)
                      \<lparr>feedback := ''Added task: "'' @ taskContent @ ''"''\<rparr>
               else s)
         else if includes_str lowerCommand ''mark'' \<and> includes_str lowerCommand ''as done'' then
           (let taskToMark = trim (replace_first (replace_first lowerCommand ''mark'') ''as done'')
            in markTaskAsDone eager taskToMark s)
         else if includes_str lowerCommand ''delete task'' then
           (let taskToDelete = trim (replace_first lowerCommand ''delete task'')
            in deleteTask taskToDelete s)
         else if includes_str lowerCommand ''clear all tasks'' then
           s\<lparr>tasks := [], feedback := ''All tasks cleared''\<rparr>
         else s\<lparr>feedback := ''Didn't recognize command: "'' @ cmd @ ''"''\<rparr>)\<close>

datatype variant = RegexMatcher | SubstringMatcher

definition processVoiceCommand ::
  "variant \<Rightarrow> int \<Rightarrow> bool \<Rightarrow> string \<Rightarrow> app_state \<Rightarrow> app_state" where
  "processVoiceCommand v now eager cmd s =
     (case v of
        RegexMatcher \<Rightarrow> processVoiceCommand_regex now eager cmd s
      | SubstringMatcher \<Rightarrow> processVoiceCommand_includes now eager cmd s)"

section \<open>Recognition session\<close>

datatype engine_call = Start | Stop

definition onresult :: "string list \<Rightarrow> app_state \<Rightarrow> app_state" where
  \<comment> \<open>\<open>results\<close> holds \<open>result[0].transcript\<close> of every entry of \<open>event.results\<close>\<close>
  "onresult results s =
     (let currentTranscript = concat results
      in if trim currentTranscript \<noteq> []
         then s\<lparr>transcript := currentTranscript, editedTranscript := currentTranscript,
                processingCommand := True\<rparr>
         else s)"

definition onerror :: "string \<Rightarrow> app_state \<Rightarrow> app_state" where
  "onerror err s = clearInputs (s\<lparr>feedback := ''Error: '' @ err, processingCommand := False\<rparr>)"

text \<open>
  The engine delivers an event to the handlers of the object it belongs to: the one in
  \<open>recognitionRef.current\<close> or one that the effect has replaced.
\<close>

datatype origin = Current | Replaced nat

fun source :: "origin \<Rightarrow> app_state \<Rightarrow> recognition option" where
  "source Current s = recognitionRef s"
| "source (Replaced i) s = (if i < length (replaced s) then Some (replaced s ! i) else None)"

text \<open>Once \<open>end\<close> has been delivered the object is no longer running.\<close>

fun endDelivered :: "origin \<Rightarrow> app_state \<Rightarrow> app_state" where
  "endDelivered Current s =
     s\<lparr>recognitionRef := map_option (\<lambda>r. r\<lparr>started := False\<rparr>) (recognitionRef s)\<rparr>"
| "endDelivered (Replaced i) s =
     (if i < length (replaced s)
      then s\<lparr>replaced := (replaced s)[i := (replaced s ! i)\<lparr>started := False\<rparr>]\<rparr>
      else s)"

text \<open>
  \<open>onend\<close>, as installed on the object \<open>obj\<close>: the test \<open>if (listening)\<close> reads the value
  the handler closed over, and \<open>recognitionRef.current?.start()\<close> starts the object that is
  in the ref at that moment. The result is the new state and the calls made on recognition
  objects; \<open>startThrows\<close> says whether \<open>start()\<close> throws when called.
\<close>

definition onend :: "origin \<Rightarrow> bool \<Rightarrow> app_state \<Rightarrow> app_state \<times> engine_call list" where
  "onend obj startThrows s =
     (case source obj s of
        None \<Rightarrow> (s, [])
      | Some r \<Rightarrow>
          (let s0 = endDelivered obj s
           in if closure_listening r then
                (case recognitionRef s0 of
                   None \<Rightarrow> (s0, [])
                 | Some c \<Rightarrow>
                     if startThrows
                     then (s0\<lparr>listening := False,
                              feedback := ''Speech recognition stopped unexpectedly''\<rparr>, [Start])
                     else (s0\<lparr>recognitionRef := Some (c\<lparr>started := True\<rparr>)\<rparr>, [Start]))
              else (s0, [])))"

definition onstart :: "app_state \<Rightarrow> app_state" where
  "onstart s = (clearInputs s)\<lparr>feedback := ''Listening... (Language: English)''\<rparr>"

definition toggleListening :: "string option \<Rightarrow> app_state \<Rightarrow> app_state \<times> engine_call list" where
  \<comment> \<open>\<open>startError\<close> is the message of the error \<open>start()\<close> throws, if it throws\<close>
  "toggleListening startError s =
     (case recognitionRef s of
        None \<Rightarrow> (s\<lparr>feedback := ''Speech recognition not initialized''\<rparr>, [])
      | Some r \<Rightarrow>
          if listening s then
            (clearInputs (s\<lparr>listening := False, feedback := ''Listening stopped''\<rparr>), [Stop])
          else
            (case startError of
               None \<Rightarrow>
                 ((clearInputs s)\<lparr>recognitionRef := Some (r\<lparr>started := True\<rparr>),
                                  listening := True\<rparr>, [Start])
             | Some msg \<Rightarrow>
                 ((clearInputs s)\<lparr>feedback := ''Couldn't start listening: '' @ msg\<rparr>,
                  [Start])))"

text \<open>
  \<open>setupSpeechGrammars\<close>, which only one version of the component has: it returns at once
  without a recognition object or without \<open>window.SpeechGrammarList\<close>, and otherwise sets
  the status, according to whether building the grammar list throws.
\<close>

datatype grammar_support = NoGrammarList | GrammarsAccepted | GrammarsRejected

definition setupSpeechGrammars :: "grammar_support \<Rightarrow> app_state \<Rightarrow> app_state" where
  "setupSpeechGrammars g s =
     (if recognitionRef s = None \<or> g = NoGrammarList then s
      else if g = GrammarsAccepted
        then s\<lparr>feedback := ''Voice command grammars initialized''\<rparr>
        else s\<lparr>feedback := ''Grammar support not available in this browser''\<rparr>)"

text \<open>
  The effect with dependency \<open>listening\<close>, run again after a render in which \<open>listening\<close>
  has changed: the clean-up calls \<open>stop()\<close> on the object in the ref, then a new object is
  created, whose handlers close over the new \<open>listening\<close>, and put in the ref. The new
  object is not started.
\<close>

definition listeningEffect ::
  "variant \<Rightarrow> grammar_support \<Rightarrow> app_state \<Rightarrow> app_state \<times> engine_call list" where
  "listeningEffect v g s =
     (case recognitionRef s of
        None \<Rightarrow> (s\<lparr>feedback := ''Speech recognition not supported in this browser''\<rparr>, [])
      | Some r \<Rightarrow>
          (let s1 = s\<lparr>recognitionRef :=
                        Some \<lparr>closure_listening = listening s, started = False\<rparr>,
                      replaced := r # replaced s\<rparr>
           in (case v of
                 RegexMatcher \<Rightarrow> setupSpeechGrammars g s1
               | SubstringMatcher \<Rightarrow> s1,
               [Stop])))"

text \<open>
  A handler that may change \<open>listening\<close>, followed by the render and, when \<open>listening\<close> has
  changed, by the effect.
\<close>

definition thenEffect ::
  "variant \<Rightarrow> grammar_support \<Rightarrow> app_state \<Rightarrow> app_state \<times> engine_call list
     \<Rightarrow> app_state \<times> engine_call list" where
  "thenEffect v g s r =
     (if listening (fst r) \<noteq> listening s
      then (fst (listeningEffect v g (fst r)), snd r @ snd (listeningEffect v g (fst r)))
      else r)"

definition toggleEditing :: "app_state \<Rightarrow> app_state" where
  "toggleEditing s = s\<lparr>isEditing := \<not> isEditing s\<rparr>"

definition handleTranscriptChange :: "string \<Rightarrow> app_state \<Rightarrow> app_state" where
  "handleTranscriptChange v s = s\<lparr>editedTranscript := v\<rparr>"

definition finishCurrentCommand :: "variant \<Rightarrow> int \<Rightarrow> bool \<Rightarrow> app_state \<Rightarrow> app_state" where
  "finishCurrentCommand v now eager s =
     (if processingCommand s \<and> trim (editedTranscript s) \<noteq> []
      then (clearInputs (processVoiceCommand v now eager (editedTranscript s) s))
             \<lparr>feedback := ''Command processed''\<rparr>
      else s\<lparr>feedback := ''No command to process''\<rparr>)"

definition cancelCurrentCommand :: "app_state \<Rightarrow> app_state" where
  "cancelCurrentCommand s = (clearInputs s)\<lparr>feedback := ''Command cancelled''\<rparr>"

text \<open>
  The events the component reacts to, one per handler, with what the environment supplies:
  for \<open>end\<close> the object it is delivered to and whether \<open>start()\<close> throws, and, for the two
  handlers that may change \<open>listening\<close>, what the grammar set-up of the effect meets.
  React commits the render and runs the effect before the next event is handled.
\<close>

datatype event =
    OnResult "string list"
  | OnError string
  | OnEnd origin bool grammar_support
  | OnStart
  | ToggleListening "string option" grammar_support
  | ToggleEditing
  | TranscriptChange string
  | Finish int bool
  | Cancel
  | ManualDelete int
  | ManualToggle int

fun step :: "variant \<Rightarrow> event \<Rightarrow> app_state \<Rightarrow> app_state" where
  "step v (OnResult rs) s = onresult rs s"
| "step v (OnError e) s = onerror e s"
| "step v (OnEnd obj thr g) s = fst (thenEffect v g s (onend obj thr s))"
| "step v OnStart s = onstart s"
| "step v (ToggleListening err g) s = fst (thenEffect v g s (toggleListening err s))"
| "step v ToggleEditing s = toggleEditing s"
| "step v (TranscriptChange x) s = handleTranscriptChange x s"
| "step v (Finish now eager) s = finishCurrentCommand v now eager s"
| "step v Cancel s = cancelCurrentCommand s"
| "step v (ManualDelete i) s = handleManualDelete i s"
| "step v (ManualToggle i) s = handleManualToggle i s"

fun run :: "variant \<Rightarrow> event list \<Rightarrow> app_state \<Rightarrow> app_state" where
  "run v [] s = s"
| "run v (e # es) s = run v es (step v e s)"

text \<open>
  What the rendered page lets the user do: the edit toggle is shown while a command is
  pending or a transcript is displayed, the text field while a transcript is displayed in
  edit mode, the cancel button while a transcript is displayed, the delete and toggle
  buttons on the tasks listed. Callbacks of a recognition object need that object.
\<close>

fun offered :: "event \<Rightarrow> app_state \<Rightarrow> bool" where
  "offered (OnResult rs) s = (recognitionRef s \<noteq> None)"
| "offered (OnError e) s = (recognitionRef s \<noteq> None)"
| "offered (OnEnd obj thr g) s = (source obj s \<noteq> None)"
| "offered OnStart s = (recognitionRef s \<noteq> None)"
| "offered (ToggleListening err g) s = True"
| "offered ToggleEditing s = (processingCommand s \<or> transcript s \<noteq> [])"
| "offered (TranscriptChange x) s = (transcript s \<noteq> [] \<and> isEditing s)"
| "offered (Finish now eager) s = (processingCommand s \<or> transcript s \<noteq> [])"
| "offered Cancel s = (transcript s \<noteq> [])"
| "offered (ManualDelete i) s = (i \<in> task_id ` set (tasks s))"
| "offered (ManualToggle i) s = (i \<in> task_id ` set (tasks s))"

fun runOffered :: "variant \<Rightarrow> event list \<Rightarrow> app_state \<Rightarrow> app_state option" where
  "runOffered v [] s = Some s"
| "runOffered v (e # es) s = (if offered e s then runOffered v es (step v e s) else None)"

section \<open>Notions used in the statements\<close>

text \<open>
  A transcript matches a command family when the family's primary pattern or one of its
  fallback patterns matches it.
\<close>

definition familyMatches :: "commandPattern \<Rightarrow> string \<Rightarrow> bool" where
  "familyMatches cmd s =
     (regexMatch (pattern cmd) s \<noteq> None
      \<or> list_ex (\<lambda>p. regexMatch p s \<noteq> None) (altPatterns cmd))"

text \<open>The values of \<open>Date.now()\<close> that a sequence of events supplies, in order.\<close>

fun stamps :: "event list \<Rightarrow> int list" where
  "stamps [] = []"
| "stamps (Finish now eager # es) = now # stamps es"
| "stamps (e # es) = stamps es"

text \<open>The identifiers of the tasks that a run appends to the list, in order.\<close>

definition appended :: "app_state \<Rightarrow> app_state \<Rightarrow> int list" where
  "appended s s' = map task_id (drop (length (tasks s)) (tasks s'))"

fun issued :: "variant \<Rightarrow> event list \<Rightarrow> app_state \<Rightarrow> int list" where
  "issued v [] s = []"
| "issued v (e # es) s = appended s (step v e s) @ issued v es (step v e s)"

text \<open>
  The engine delivers \<open>end\<close> only to an object that is running. \<open>endCalls\<close> collects the
  calls that the \<open>onend\<close> handlers make during a run; the run is refused when an \<open>end\<close>
  comes from an object that is not running.
\<close>

fun delivered :: "event \<Rightarrow> app_state \<Rightarrow> bool" where
  "delivered (OnEnd obj thr g) s = (case source obj s of Some r \<Rightarrow> started r | None \<Rightarrow> False)"
| "delivered e s = True"

fun endCalls :: "variant \<Rightarrow> event list \<Rightarrow> app_state \<Rightarrow> engine_call list option" where
  "endCalls v [] s = Some []"
| "endCalls v (e # es) s =
     (if delivered e s
      then map_option
             (\<lambda>cs. (case e of OnEnd obj thr g \<Rightarrow> snd (onend obj thr s) | _ \<Rightarrow> []) @ cs)
             (endCalls v es (step v e s))
      else None)"

text \<open>
  What holds of the recognition objects between events: the handlers of the object in the
  ref read the current \<open>listening\<close> and that object is not running, and a replaced object
  that is running has handlers that read \<open>listening = false\<close>.
\<close>

definition session_ok :: "app_state \<Rightarrow> bool" where
  "session_ok s \<longleftrightarrow>
     (\<forall>r. recognitionRef s = Some r \<longrightarrow> closure_listening r = listening s \<and> \<not> started r)
     \<and> (\<forall>r \<in> set (replaced s). started r \<longrightarrow> \<not> closure_listening r)"

text \<open>
  The strings a pattern denotes: a literal stands for its spellings in either case, \<open>\s+\<close>
  for a non-empty run of whitespace, \<open>(.+)\<close> for a non-empty run without line terminator.
\<close>

primrec lang :: "rx list \<Rightarrow> string set" where
  "lang [] = {[]}"
| "lang (x # r) =
     {u @ w | u w.
        (case x of
           Lit l \<Rightarrow> toLowerCase u = toLowerCase l
         | Spaces \<Rightarrow> u \<noteq> [] \<and> (\<forall>c \<in> set u. isWhiteSpace c)
         | Group \<Rightarrow> u \<noteq> [] \<and> (\<forall>c \<in> set u. \<not> isLineTerminator c))
        \<and> w \<in> lang r}"

section \<open>Example states\<close>

definition groceries :: app_state where
  "groceries = (initial_state True)\<lparr>tasks :=
     [\<lparr>task_id = 1, content = ''Buy Milk'', completed = False\<rparr>,
      \<lparr>task_id = 2, content = ''walk dog'', completed = False\<rparr>]\<rparr>"

definition milk_only :: app_state where
  "milk_only = (initial_state True)\<lparr>tasks :=
     [\<lparr>task_id = 1, content = ''buy milk'', completed = False\<rparr>]\<rparr>"

definition mic_clicked :: "event list" where
  "mic_clicked = [ToggleListening None NoGrammarList]"

definition emptied_edit :: "event list" where
  "emptied_edit =
     [ToggleListening None NoGrammarList, OnStart, OnResult [''hello''], ToggleEditing, TranscriptChange []]"

definition same_millisecond :: "event list" where
  "same_millisecond =
     [ToggleListening None NoGrammarList, OnStart, OnResult [''add task a''], Finish 1000 True,
      OnResult [''add task b''], Finish 1000 True]"

definition next_millisecond :: "event list" where
  "next_millisecond =
     [ToggleListening None NoGrammarList, OnStart, OnResult [''add task a''], Finish 1000 True,
      OnResult [''add task b''], Finish 1001 True]"

section \<open>Substring search\<close>

lemma includes_str_sublist: "includes_str s sub \<longleftrightarrow> sublist sub s"
  by (induction s) (simp_all add: sublist_Cons_right)

lemma includes_str_empty: "includes_str s []"
  by (simp add: includes_str_sublist)

lemma taskMatches_sublist:
  "taskMatches frag t \<longleftrightarrow> sublist (toLowerCase frag) (toLowerCase (content t))"
  by (simp add: taskMatches_def includes_str_sublist)

lemma list_ex_taskMatches:
  "list_ex (taskMatches frag) ts \<longleftrightarrow>
     (\<exists>t \<in> set ts. sublist (toLowerCase frag) (toLowerCase (content t)))"
  by (simp add: list_ex_iff taskMatches_sublist)

lemma taskMatches_empty: "taskMatches [] t"
  by (simp add: taskMatches_def toLowerCase_def includes_str_empty)

lemma lower_Buy_Milk: "toLowerCase ''Buy Milk'' = ''buy milk''"
  by code_simp

lemma lower_MILK: "toLowerCase ''MILK'' = ''milk''"
  by code_simp

lemma lower_walk_dog: "toLowerCase ''walk dog'' = ''walk dog''"
  by code_simp

lemma lower_buy_milk: "toLowerCase ''buy milk'' = ''buy milk''"
  by code_simp

lemma lower_soup: "toLowerCase ''soup'' = ''soup''"
  by code_simp

lemma milk_in_buy_milk: "sublist ''milk'' ''buy milk''"
  by (simp flip: includes_str_sublist)

lemma milk_not_in_walk_dog: "\<not> sublist ''milk'' ''walk dog''"
  by (simp flip: includes_str_sublist)

lemma soup_not_in_buy_milk: "\<not> sublist ''soup'' ''buy milk''"
  by (simp flip: includes_str_sublist)

lemma soup_not_in_walk_dog: "\<not> sublist ''soup'' ''walk dog''"
  by (simp flip: includes_str_sublist)

section \<open>Marking tasks as done\<close>

text \<open>
  Claim C8. \<open>markTaskAsDone\<close> keeps the length and the order of the task list; a task whose
  lower-cased content contains the lower-cased fragment as a contiguous substring becomes
  the same task with \<open>completed = true\<close>, every other task stays as it was; and when no
  task contains the fragment the status is the "No tasks found matching" message.
\<close>

theorem markTaskAsDone_frame:
  \<open>length (tasks (markTaskAsDone eager frag s)) = length (tasks s)
   \<and> (\<forall>i < length (tasks s).
        tasks (markTaskAsDone eager frag s) ! i =
          (if sublist (toLowerCase frag) (toLowerCase (content (tasks s ! i)))
           then (tasks s ! i)\<lparr>completed := True\<rparr> else tasks s ! i))
   \<and> ((\<forall>t \<in> set (tasks s). \<not> sublist (toLowerCase frag) (toLowerCase (content t)))
        \<longrightarrow> feedback (markTaskAsDone eager frag s) = ''No tasks found matching "'' @ frag @ ''"'')\<close>
  by (simp add: markTaskAsDone_def Let_def list_ex_taskMatches taskMatches_sublist)

theorem markTaskAsDone_frame_witness:
  \<open>length (tasks (markTaskAsDone True ''MILK'' groceries)) = 2
   \<and> tasks (markTaskAsDone True ''MILK'' groceries) ! 0
       = \<lparr>task_id = 1, content = ''Buy Milk'', completed = True\<rparr>
   \<and> tasks (markTaskAsDone True ''MILK'' groceries) ! 1
       = \<lparr>task_id = 2, content = ''walk dog'', completed = False\<rparr>
   \<and> feedback (markTaskAsDone True ''soup'' groceries) = ''No tasks found matching "soup"''\<close>
  using markTaskAsDone_frame [of True "''MILK''" groceries]
    markTaskAsDone_frame [of True "''soup''" groceries]
  by (simp add: groceries_def initial_state_def lower_Buy_Milk lower_MILK lower_walk_dog
      lower_soup milk_in_buy_milk milk_not_in_walk_dog soup_not_in_buy_milk
      soup_not_in_walk_dog)

section \<open>Marking with the empty fragment\<close>

lemma lower_mark_as_done: "toLowerCase ''mark as done'' = ''mark as done''"
  by code_simp

lemma mark_as_done_dispatch:
  "\<not> includes_str ''mark as done'' ''add task''
   \<and> includes_str ''mark as done'' ''mark''
   \<and> includes_str ''mark as done'' ''as done''"
  by simp

lemma mark_as_done_fragment:
  "trim (replace_first (replace_first ''mark as done'' ''mark'') ''as done'') = []"
  by code_simp

lemma trim_mark_as_done: "trim ''mark as done'' \<noteq> []"
  by code_simp

lemma markTaskAsDone_empty_tasks:
  "tasks (markTaskAsDone eager [] s) = map (\<lambda>t. t\<lparr>completed := True\<rparr>) (tasks s)"
  by (simp add: markTaskAsDone_def Let_def taskMatches_empty)

lemma includes_mark_as_done:
  "processVoiceCommand_includes now eager ''mark as done'' s = markTaskAsDone eager [] s"
  by (simp only: processVoiceCommand_includes_def Let_def lower_mark_as_done
      mark_as_done_dispatch mark_as_done_fragment simp_thms if_True if_False)

text \<open>
  Claim C10. With the empty fragment \<open>markTaskAsDone\<close> sets \<open>completed = true\<close> on every
  task. In the version of \<open>processVoiceCommand\<close> built on \<open>includes\<close> the transcript
  "mark as done" is dispatched to \<open>markTaskAsDone\<close> with the empty fragment, so a
  recognised "mark as done" followed by a confirmation marks every task.
\<close>

theorem markTaskAsDone_empty_fragment_marks_all:
  "tasks (markTaskAsDone eager [] s) = map (\<lambda>t. t\<lparr>completed := True\<rparr>) (tasks s)
   \<and> processVoiceCommand_includes now eager ''mark as done'' s = markTaskAsDone eager [] s
   \<and> tasks (run SubstringMatcher [OnResult [''mark as done''], Finish now eager] s)
       = map (\<lambda>t. t\<lparr>completed := True\<rparr>) (tasks s)"
  by (simp add: markTaskAsDone_empty_tasks includes_mark_as_done onresult_def Let_def
      finishCurrentCommand_def processVoiceCommand_def clearInputs_def trim_mark_as_done)

theorem markTaskAsDone_empty_fragment_marks_all_witness:
  "map completed (tasks (markTaskAsDone True [] groceries)) = [True, True]
   \<and> map completed
        (tasks (run SubstringMatcher [OnResult [''mark as done''], Finish 5 True] groceries))
       = [True, True]"
  using markTaskAsDone_empty_fragment_marks_all [of True groceries 5]
  by (simp add: groceries_def initial_state_def)

section \<open>Deleting tasks\<close>

lemma deleteTask_tasks:
  "tasks (deleteTask frag s) =
     filter (\<lambda>t. \<not> sublist (toLowerCase frag) (toLowerCase (content t))) (tasks s)"
  by (simp add: deleteTask_def Let_def taskMatches_sublist)

lemma deleteTask_feedback:
  \<open>feedback (deleteTask frag s) = ''No task found matching "'' @ frag @ ''"''\<close>
  by (simp add: deleteTask_def Let_def)

lemma match_delete_task_buy_milk:
  "findBestCommandMatch ''delete task buy milk''
     = \<lparr>command = ''delete'', cmd_content = ''buy milk''\<rparr>"
  by code_simp

text \<open>
  Claim C1. \<open>deleteTask\<close> removes exactly the tasks whose content contains the fragment
  (\<open>deleteTask_tasks\<close>), but its status never reports a deletion (\<open>deleteTask_feedback\<close>).
  On the list holding the single task "buy milk", deleting "buy milk" empties the list
  and the status is the "No task found matching" message, both when \<open>deleteTask\<close> is
  called directly and when the transcript "delete task buy milk" is processed.
\<close>

theorem deleteTask_reports_no_match_after_deleting:
  \<open>tasks milk_only = [\<lparr>task_id = 1, content = ''buy milk'', completed = False\<rparr>]
   \<and> tasks (deleteTask ''buy milk'' milk_only) = []
   \<and> feedback (deleteTask ''buy milk'' milk_only) = ''No task found matching "buy milk"''
   \<and> tasks (processVoiceCommand_regex 0 True ''delete task buy milk'' milk_only) = []
   \<and> feedback (processVoiceCommand_regex 0 True ''delete task buy milk'' milk_only)
       = ''No task found matching "buy milk"''\<close>
  by (simp add: processVoiceCommand_regex_def Let_def match_delete_task_buy_milk
      deleteTask_tasks deleteTask_feedback milk_only_def initial_state_def lower_buy_milk)

section \<open>Unexpected end of the recognition stream\<close>

lemma clearInputs_session:
  "listening (clearInputs s) = listening s"
  "recognitionRef (clearInputs s) = recognitionRef s"
  "replaced (clearInputs s) = replaced s"
  by (simp_all add: clearInputs_def)

lemma processVoiceCommand_session:
  "listening (processVoiceCommand v now eager cmd s) = listening s"
  "recognitionRef (processVoiceCommand v now eager cmd s) = recognitionRef s"
  "replaced (processVoiceCommand v now eager cmd s) = replaced s"
  by (cases v; simp add: processVoiceCommand_def processVoiceCommand_regex_def
      processVoiceCommand_includes_def Let_def addTask_def markTaskAsDone_def deleteTask_def)+

lemma mic_clicked_state:
  "run v mic_clicked (initial_state True) =
     \<lparr>tasks = [], listening = True, transcript = [], editedTranscript = [], feedback = [],
      processingCommand = False, isEditing = False,
      recognitionRef = Some \<lparr>closure_listening = True, started = False\<rparr>,
      replaced = [\<lparr>closure_listening = False, started = True\<rparr>]\<rparr>"
  by (cases v)
    (simp_all add: mic_clicked_def initial_state_def toggleListening_def clearInputs_def
      thenEffect_def listeningEffect_def setupSpeechGrammars_def Let_def)

lemma listeningEffect_ok:
  assumes "\<forall>r. recognitionRef s = Some r \<longrightarrow> (started r \<longrightarrow> \<not> closure_listening r)"
    and "\<forall>r \<in> set (replaced s). started r \<longrightarrow> \<not> closure_listening r"
  shows "session_ok (fst (listeningEffect v g s))"
  using assms
  by (cases v; cases "recognitionRef s")
    (auto simp: session_ok_def listeningEffect_def setupSpeechGrammars_def Let_def)

lemma toggleListening_ok:
  assumes "session_ok s"
  shows "session_ok (step v (ToggleListening err g) s)"
proof (cases "recognitionRef s")
  case None
  with assms show ?thesis
    by (simp add: thenEffect_def toggleListening_def session_ok_def)
next
  case (Some r)
  with assms have r: "closure_listening r = listening s" "\<not> started r"
    and old: "\<forall>r \<in> set (replaced s). started r \<longrightarrow> \<not> closure_listening r"
    by (simp_all add: session_ok_def)
  show ?thesis
  proof (cases "listening s")
    case True
    have t: "toggleListening err s
               = (clearInputs (s\<lparr>listening := False, feedback := ''Listening stopped''\<rparr>), [Stop])"
      using Some True by (simp add: toggleListening_def)
    have "session_ok (fst (listeningEffect v g (fst (toggleListening err s))))"
      unfolding t using Some r old
      by (intro listeningEffect_ok) (simp_all add: clearInputs_def)
    then show ?thesis
      using True by (simp add: thenEffect_def t clearInputs_def)
  next
    case False
    note idle = this
    show ?thesis
    proof (cases err)
      case None
      have t: "toggleListening err s
                 = ((clearInputs s)\<lparr>recognitionRef := Some (r\<lparr>started := True\<rparr>),
                                     listening := True\<rparr>, [Start])"
        using Some idle None by (simp add: toggleListening_def)
      have "session_ok (fst (listeningEffect v g (fst (toggleListening err s))))"
        unfolding t using r old idle
        by (intro listeningEffect_ok) (simp_all add: clearInputs_def)
      then show ?thesis
        using idle by (simp add: thenEffect_def t clearInputs_def)
    next
      case (Some msg)
      have t: "toggleListening err s
                 = ((clearInputs s)\<lparr>feedback := ''Couldn't start listening: '' @ msg\<rparr>, [Start])"
        using \<open>recognitionRef s = Some r\<close> idle Some by (simp add: toggleListening_def)
      show ?thesis
        using assms by (simp add: thenEffect_def t clearInputs_def session_ok_def)
    qed
  qed
qed

lemma onend_quiet:
  assumes "session_ok s" and "delivered (OnEnd obj thr g) s"
  shows "snd (onend obj thr s) = []" and "fst (onend obj thr s) = endDelivered obj s"
proof -
  from assms(2) obtain r where r: "source obj s = Some r" "started r"
    by (auto split: option.splits)
  have "\<not> closure_listening r"
  proof (cases obj)
    case Current
    with r assms(1) show ?thesis by (auto simp: session_ok_def)
  next
    case (Replaced i)
    with r have "r \<in> set (replaced s)" by (auto split: if_splits)
    with r assms(1) show ?thesis by (auto simp: session_ok_def)
  qed
  with r show "snd (onend obj thr s) = []" and "fst (onend obj thr s) = endDelivered obj s"
    by (simp_all add: onend_def Let_def)
qed

lemma endDelivered_ok: "session_ok s \<Longrightarrow> session_ok (endDelivered obj s)"
proof (cases obj)
  case Current
  assume "session_ok s"
  with Current show ?thesis by (auto simp: session_ok_def)
next
  case (Replaced i)
  assume "session_ok s"
  with Replaced show ?thesis
    by (auto simp: session_ok_def dest!: set_update_subset_insert [THEN subsetD])
qed

lemma endDelivered_listening: "listening (endDelivered obj s) = listening s"
  by (cases obj) simp_all

lemma step_ok:
  assumes "session_ok s" and "delivered e s"
  shows "session_ok (step v e s)"
proof (cases e)
  case (OnEnd obj thr g)
  with assms onend_quiet(2) [of s obj thr g] show ?thesis
    by (simp add: thenEffect_def endDelivered_listening endDelivered_ok)
next
  case (ToggleListening err g)
  with assms(1) show ?thesis by (simp only: toggleListening_ok)
next
  case (Finish now eager)
  with assms(1) show ?thesis
    by (simp add: session_ok_def finishCurrentCommand_def clearInputs_session
        processVoiceCommand_session)
qed (use assms(1) in \<open>simp_all add: session_ok_def onresult_def Let_def onerror_def onstart_def
      clearInputs_def toggleEditing_def handleTranscriptChange_def cancelCurrentCommand_def
      handleManualDelete_def handleManualToggle_def\<close>)

lemma endCalls_quiet:
  "session_ok s \<Longrightarrow> endCalls v evs s = Some cs \<Longrightarrow> cs = []"
proof (induction evs arbitrary: s cs)
  case Nil
  then show ?case by simp
next
  case (Cons e es)
  from Cons.prems(2) have d: "delivered e s"
    by (simp split: if_splits)
  with Cons.prems(2) obtain cs' where rest: "endCalls v es (step v e s) = Some cs'"
    and cs: "cs = (case e of OnEnd obj thr g \<Rightarrow> snd (onend obj thr s) | _ \<Rightarrow> []) @ cs'"
    by auto
  have "session_ok (step v e s)"
    using Cons.prems(1) d by (rule step_ok)
  from Cons.IH [OF this rest] have "cs' = []" .
  moreover have "(case e of OnEnd obj thr g \<Rightarrow> snd (onend obj thr s) | _ \<Rightarrow> []) = []"
    using onend_quiet(1) [OF Cons.prems(1)] d by (cases e) auto
  ultimately show ?case using cs by simp
qed

lemma initial_ok: "session_ok (initial_state supported)"
  by (simp add: session_ok_def initial_state_def)

lemma no_restart_on_end:
  "endCalls v evs (initial_state supported) = Some cs \<Longrightarrow> cs = []"
  using initial_ok by (rule endCalls_quiet)

lemma restart_failure_status:
  assumes "source obj s = Some r" and "closure_listening r" and "listening s"
    and "recognitionRef s \<noteq> None"
  shows "feedback (step SubstringMatcher (OnEnd obj True g) s)
           = ''Speech recognition stopped unexpectedly''"
    and "feedback (step RegexMatcher (OnEnd obj True GrammarsAccepted) s)
           = ''Voice command grammars initialized''"
  using assms
  by (cases obj; auto simp: onend_def Let_def thenEffect_def listeningEffect_def
      setupSpeechGrammars_def split: option.splits)+

text \<open>
  Claim C9. After the microphone button has been clicked and \<open>start()\<close> has succeeded,
  \<open>listening\<close> is true, the object that was started has been replaced by the effect and its
  handlers read \<open>listening = false\<close>, and the object in the ref, whose handlers read
  \<open>listening = true\<close>, is not running. When the engine then ends the stream, \<open>onend\<close> makes
  no call at all, whether or not \<open>start()\<close> would throw: no restart is attempted,
  \<open>listening\<close> stays true and the status is not changed. This holds in both versions. In
  no run does an \<open>onend\<close> handler call \<open>start()\<close> (\<open>no_restart_on_end\<close>); and were the
  restart to fail, the version with grammar set-up would replace the status
  "Speech recognition stopped unexpectedly" at once (\<open>restart_failure_status\<close>).
\<close>

theorem end_while_listening_attempts_no_restart:
  "listening (run SubstringMatcher mic_clicked (initial_state True))
   \<and> source (Replaced 0) (run SubstringMatcher mic_clicked (initial_state True))
       = Some \<lparr>closure_listening = False, started = True\<rparr>
   \<and> recognitionRef (run SubstringMatcher mic_clicked (initial_state True))
       = Some \<lparr>closure_listening = True, started = False\<rparr>
   \<and> snd (onend (Replaced 0) True (run SubstringMatcher mic_clicked (initial_state True))) = []
   \<and> snd (onend (Replaced 0) False (run SubstringMatcher mic_clicked (initial_state True))) = []
   \<and> listening (step SubstringMatcher (OnEnd (Replaced 0) True NoGrammarList)
        (run SubstringMatcher mic_clicked (initial_state True)))
   \<and> feedback (step SubstringMatcher (OnEnd (Replaced 0) True NoGrammarList)
        (run SubstringMatcher mic_clicked (initial_state True))) = []
   \<and> snd (onend (Replaced 0) True (run RegexMatcher mic_clicked (initial_state True))) = []
   \<and> listening (step RegexMatcher (OnEnd (Replaced 0) True NoGrammarList)
        (run RegexMatcher mic_clicked (initial_state True)))"
  by (simp add: mic_clicked_state onend_def Let_def thenEffect_def)

section \<open>Whitespace and trimming\<close>

lemma trim_Nil: "trim [] = []"
  by (simp add: trim_def)

lemma isWhiteSpace_toLowerChar: "isWhiteSpace (toLowerChar c) = isWhiteSpace c"
  by (auto simp: isWhiteSpace_def toLowerChar_def Let_def)

lemma dropWhile_ws_toLowerCase:
  "dropWhile isWhiteSpace (toLowerCase s) = toLowerCase (dropWhile isWhiteSpace s)"
  by (induction s) (simp_all add: toLowerCase_def isWhiteSpace_toLowerChar)

lemma trim_all_whitespace:
  assumes "\<forall>c \<in> set s. isWhiteSpace c"
  shows "trim s = []"
proof -
  from assms have h: "dropWhile isWhiteSpace s = []"
    by simp
  show ?thesis
    by (simp only: trim_def h rev.simps dropWhile.simps)
qed

lemma trim_lower_all_whitespace:
  assumes "\<forall>c \<in> set s. isWhiteSpace c"
  shows "trim (toLowerCase s) = []"
proof -
  have "\<forall>c \<in> set (toLowerCase s). isWhiteSpace c"
    using assms by (simp add: toLowerCase_def isWhiteSpace_toLowerChar)
  then show ?thesis by (rule trim_all_whitespace)
qed

section \<open>Matching one pattern\<close>

lemma greedy_Suc: "greedy (Suc k) = Suc k # greedy k"
  by (simp add: greedy_def)

lemma greedy_0: "greedy 0 = []"
  by (simp add: greedy_def)

lemma set_greedy: "set (greedy k) = {1..k}"
  by (auto simp: greedy_def)

lemma firstSome_None: "firstSome f ns = None \<longleftrightarrow> (\<forall>n \<in> set ns. f n = None)"
  by (induction ns) (auto split: option.splits)

lemma firstSome_Some: "firstSome f ns = Some r \<Longrightarrow> \<exists>n \<in> set ns. f n = Some r"
  by (induction ns) (auto split: option.splits)

lemma greedy_bounds: "n \<in> set (greedy (length (takeWhile P s))) \<Longrightarrow> take n s \<noteq> []"
  by (cases s) (auto simp: set_greedy)

lemma matchHere_Lit:
  "matchHere (Lit l # r) s cap = Some m \<Longrightarrow> matchHere r (drop (length l) s) cap = Some m"
  by (simp split: if_splits)

lemma matchHere_Spaces:
  "matchHere (Spaces # r) s cap = Some m \<Longrightarrow>
     \<exists>n \<in> set (greedy (length (takeWhile isWhiteSpace s))). matchHere r (drop n s) cap = Some m"
  by (simp add: firstSome_Some)

lemma matchHere_Group:
  "matchHere (Group # r) s cap = Some m \<Longrightarrow>
     \<exists>n \<in> set (greedy (length (takeWhile (\<lambda>c. \<not> isLineTerminator c) s))).
        matchHere r (drop n s) (Some (take n s)) = Some m"
  by (simp add: firstSome_Some)
lemma matchHere_capture:
  "matchHere p s cap = Some m \<Longrightarrow> m = cap \<or> (\<exists>c. m = Some c \<and> c \<noteq> [])"
proof (induction p arbitrary: s cap)
  case Nil
  then show ?case by simp
next
  case (Cons x r)
  show ?case
  proof (cases x)
    case (Lit l)
    with Cons.prems have "matchHere r (drop (length l) s) cap = Some m"
      by (blast dest: matchHere_Lit)
    then show ?thesis by (rule Cons.IH)
  next
    case Spaces
    with Cons.prems obtain n where "matchHere r (drop n s) cap = Some m"
      by (blast dest: matchHere_Spaces)
    then show ?thesis by (rule Cons.IH)
  next
    case Group
    with Cons.prems obtain n
      where n: "n \<in> set (greedy (length (takeWhile (\<lambda>c. \<not> isLineTerminator c) s)))"
        and m: "matchHere r (drop n s) (Some (take n s)) = Some m"
      by (blast dest: matchHere_Group)
    from m have "m = Some (take n s) \<or> (\<exists>c. m = Some c \<and> c \<noteq> [])"
      by (rule Cons.IH)
    with greedy_bounds [OF n] show ?thesis by blast
  qed
qed

lemma matchHere_Group_capture:
  "Group \<in> set p \<Longrightarrow> matchHere p s cap = Some m \<Longrightarrow> \<exists>c. m = Some c \<and> c \<noteq> []"
proof (induction p arbitrary: s cap)
  case Nil
  then show ?case by simp
next
  case (Cons x r)
  show ?case
  proof (cases x)
    case (Lit l)
    with Cons.prems have "Group \<in> set r" by simp
    moreover from Lit Cons.prems have "matchHere r (drop (length l) s) cap = Some m"
      by (blast dest: matchHere_Lit)
    ultimately show ?thesis by (rule Cons.IH)
  next
    case Spaces
    with Cons.prems have "Group \<in> set r" by simp
    moreover from Spaces Cons.prems obtain n where "matchHere r (drop n s) cap = Some m"
      by (blast dest: matchHere_Spaces)
    ultimately show ?thesis by (rule Cons.IH)
  next
    case Group
    with Cons.prems obtain n
      where n: "n \<in> set (greedy (length (takeWhile (\<lambda>c. \<not> isLineTerminator c) s)))"
        and m: "matchHere r (drop n s) (Some (take n s)) = Some m"
      by (blast dest: matchHere_Group)
    from matchHere_capture [OF m] greedy_bounds [OF n] show ?thesis by blast
  qed
qed

lemma regexMatch_Group_capture:
  "Group \<in> set p \<Longrightarrow> regexMatch p s = Some m \<Longrightarrow> orEmpty m \<noteq> []"
proof (induction s)
  case Nil
  then show ?case
    by (auto simp: orEmpty_def dest: matchHere_Group_capture)
next
  case (Cons c cs)
  then show ?case
    by (auto simp: orEmpty_def dest: matchHere_Group_capture split: option.splits)
qed

text \<open>
  The matcher finds a match exactly when some part of the string is denoted by the pattern.
\<close>

lemma toLowerCase_length: "toLowerCase u = toLowerCase l \<Longrightarrow> length u = length l"
  unfolding toLowerCase_def by (rule map_eq_imp_length_eq)

lemma run_prefix_iff:
  "(\<exists>n \<in> set (greedy (length (takeWhile P s))). Q (take n s) (drop n s))
   \<longleftrightarrow> (\<exists>u t. s = u @ t \<and> u \<noteq> [] \<and> (\<forall>c \<in> set u. P c) \<and> Q u t)"
proof
  assume "\<exists>n \<in> set (greedy (length (takeWhile P s))). Q (take n s) (drop n s)"
  then obtain n where n: "1 \<le> n" "n \<le> length (takeWhile P s)" and q: "Q (take n s) (drop n s)"
    by (auto simp: set_greedy)
  have "take n s = take n (takeWhile P s)"
    using n(2) by (metis takeWhile_dropWhile_id take_append diff_is_0_eq' take_0 append_Nil2)
  then have all: "\<forall>c \<in> set (take n s). P c"
    by (metis in_set_takeD set_takeWhileD)
  have ne: "take n s \<noteq> []"
    using n by (cases s) auto
  show "\<exists>u t. s = u @ t \<and> u \<noteq> [] \<and> (\<forall>c \<in> set u. P c) \<and> Q u t"
    using all ne q by (intro exI [of _ "take n s"] exI [of _ "drop n s"]) simp
next
  assume "\<exists>u t. s = u @ t \<and> u \<noteq> [] \<and> (\<forall>c \<in> set u. P c) \<and> Q u t"
  then obtain u t where s: "s = u @ t" and u: "u \<noteq> []" "\<forall>c \<in> set u. P c" and q: "Q u t"
    by blast
  have "takeWhile P s = u @ takeWhile P t"
    using s u(2) by (simp add: takeWhile_append2)
  then have "length u \<in> set (greedy (length (takeWhile P s)))"
    using u(1) by (cases u) (simp_all add: set_greedy)
  moreover have "Q (take (length u) s) (drop (length u) s)"
    using q s by simp
  ultimately show "\<exists>n \<in> set (greedy (length (takeWhile P s))). Q (take n s) (drop n s)"
    by blast
qed

lemma concat_split:
  "(\<exists>w t. s = w @ t \<and> w \<in> {u @ w | u w. A u \<and> w \<in> L})
   \<longleftrightarrow> (\<exists>u t'. s = u @ t' \<and> A u \<and> (\<exists>w t. t' = w @ t \<and> w \<in> L))"
proof
  assume "\<exists>w t. s = w @ t \<and> w \<in> {u @ w | u w. A u \<and> w \<in> L}"
  then obtain u w t where "s = (u @ w) @ t" and u: "A u" and w: "w \<in> L"
    by blast
  then have "s = u @ (w @ t)" by simp
  with u w show "\<exists>u t'. s = u @ t' \<and> A u \<and> (\<exists>w t. t' = w @ t \<and> w \<in> L)"
    by blast
next
  assume "\<exists>u t'. s = u @ t' \<and> A u \<and> (\<exists>w t. t' = w @ t \<and> w \<in> L)"
  then obtain u w t where "s = u @ (w @ t)" and u: "A u" and w: "w \<in> L"
    by blast
  then have "s = (u @ w) @ t" by simp
  moreover have "u @ w \<in> {u @ w | u w. A u \<and> w \<in> L}"
    using u w by blast
  ultimately show "\<exists>w t. s = w @ t \<and> w \<in> {u @ w | u w. A u \<and> w \<in> L}"
    by blast
qed

lemma firstSome_not_None: "firstSome f ns \<noteq> None \<longleftrightarrow> (\<exists>n \<in> set ns. f n \<noteq> None)"
  by (simp add: firstSome_None)

lemma matchHere_lang:
  "matchHere p s cap \<noteq> None \<longleftrightarrow> (\<exists>w t. s = w @ t \<and> w \<in> lang p)"
proof (induction p arbitrary: s cap)
  case Nil
  then show ?case by simp
next
  case (Cons x r)
  show ?case
  proof (cases x)
    case (Lit l)
    show ?thesis
    proof
      assume "matchHere (x # r) s cap \<noteq> None"
      then have eq: "toLowerCase (take (length l) s) = toLowerCase l"
        and rest: "matchHere r (drop (length l) s) cap \<noteq> None"
        using Lit by (simp_all split: if_splits)
      from rest obtain w t where d: "drop (length l) s = w @ t" and w: "w \<in> lang r"
        using Cons.IH by blast
      have "s = (take (length l) s @ w) @ t"
        using d by (metis append_assoc append_take_drop_id)
      moreover have "take (length l) s @ w \<in> lang (x # r)"
        using eq w Lit by auto
      ultimately show "\<exists>w t. s = w @ t \<and> w \<in> lang (x # r)" by blast
    next
      assume "\<exists>w t. s = w @ t \<and> w \<in> lang (x # r)"
      then obtain u w t where s: "s = (u @ w) @ t" and u: "toLowerCase u = toLowerCase l"
        and w: "w \<in> lang r"
        using Lit by auto
      have len: "length u = length l" using u by (rule toLowerCase_length)
      have "matchHere r (drop (length l) s) cap \<noteq> None"
        using Cons.IH [of "w @ t" cap] w s len by auto
      then show "matchHere (x # r) s cap \<noteq> None"
        using Lit u s len by simp
    qed
  next
    case Spaces
    have "matchHere (x # r) s cap \<noteq> None
      \<longleftrightarrow> (\<exists>n \<in> set (greedy (length (takeWhile isWhiteSpace s))).
             matchHere r (drop n s) cap \<noteq> None)"
      unfolding Spaces by (simp only: matchHere.simps rx.case firstSome_not_None)
    also have "\<dots> \<longleftrightarrow> (\<exists>n \<in> set (greedy (length (takeWhile isWhiteSpace s))).
             (\<exists>w t. drop n s = w @ t \<and> w \<in> lang r))"
      by (simp only: Cons.IH)
    also have "\<dots> \<longleftrightarrow> (\<exists>u t'. s = u @ t' \<and> u \<noteq> [] \<and> (\<forall>c \<in> set u. isWhiteSpace c)
                         \<and> (\<exists>w t. t' = w @ t \<and> w \<in> lang r))"
      by (rule run_prefix_iff [where Q = "\<lambda>u t'. \<exists>w t. t' = w @ t \<and> w \<in> lang r"])
    also have "\<dots> \<longleftrightarrow> (\<exists>w t. s = w @ t \<and> w \<in> lang (x # r))"
      unfolding Spaces
      using concat_split [of s "\<lambda>u. u \<noteq> [] \<and> (\<forall>c \<in> set u. isWhiteSpace c)" "lang r", symmetric]
      by simp
    finally show ?thesis .
  next
    case Group
    have "matchHere (x # r) s cap \<noteq> None
      \<longleftrightarrow> (\<exists>n \<in> set (greedy (length (takeWhile (\<lambda>c. \<not> isLineTerminator c) s))).
             matchHere r (drop n s) (Some (take n s)) \<noteq> None)"
      unfolding Group by (simp only: matchHere.simps rx.case firstSome_not_None)
    also have "\<dots> \<longleftrightarrow> (\<exists>n \<in> set (greedy (length (takeWhile (\<lambda>c. \<not> isLineTerminator c) s))).
             (\<exists>w t. drop n s = w @ t \<and> w \<in> lang r))"
      by (simp only: Cons.IH)
    also have "\<dots> \<longleftrightarrow> (\<exists>u t'. s = u @ t' \<and> u \<noteq> [] \<and> (\<forall>c \<in> set u. \<not> isLineTerminator c)
                         \<and> (\<exists>w t. t' = w @ t \<and> w \<in> lang r))"
      by (rule run_prefix_iff [where Q = "\<lambda>u t'. \<exists>w t. t' = w @ t \<and> w \<in> lang r"])
    also have "\<dots> \<longleftrightarrow> (\<exists>w t. s = w @ t \<and> w \<in> lang (x # r))"
      unfolding Group
      using concat_split [of s "\<lambda>u. u \<noteq> [] \<and> (\<forall>c \<in> set u. \<not> isLineTerminator c)" "lang r", symmetric]
      by simp
    finally show ?thesis .
  qed
qed

lemma regexMatch_lang:
  "regexMatch p s \<noteq> None \<longleftrightarrow> (\<exists>pre w post. s = pre @ w @ post \<and> w \<in> lang p)"
proof (induction s)
  case Nil
  show ?case
    using matchHere_lang [of p "[]" None] by auto
next
  case (Cons c cs)
  have "regexMatch p (c # cs) \<noteq> None
        \<longleftrightarrow> matchHere p (c # cs) None \<noteq> None \<or> regexMatch p cs \<noteq> None"
    by (simp split: option.splits)
  also have "\<dots> \<longleftrightarrow> (\<exists>w t. c # cs = w @ t \<and> w \<in> lang p)
                    \<or> (\<exists>pre w post. cs = pre @ w @ post \<and> w \<in> lang p)"
    using Cons.IH matchHere_lang [of p "c # cs" None] by simp
  also have "\<dots> \<longleftrightarrow> (\<exists>pre w post. c # cs = pre @ w @ post \<and> w \<in> lang p)"
  proof
    assume "(\<exists>w t. c # cs = w @ t \<and> w \<in> lang p)
            \<or> (\<exists>pre w post. cs = pre @ w @ post \<and> w \<in> lang p)"
    then show "\<exists>pre w post. c # cs = pre @ w @ post \<and> w \<in> lang p"
    proof
      assume "\<exists>w t. c # cs = w @ t \<and> w \<in> lang p"
      then obtain w t where "c # cs = [] @ w @ t" "w \<in> lang p" by auto
      then show ?thesis by blast
    next
      assume "\<exists>pre w post. cs = pre @ w @ post \<and> w \<in> lang p"
      then obtain pre w post where "c # cs = (c # pre) @ w @ post" "w \<in> lang p" by auto
      then show ?thesis by blast
    qed
  next
    assume "\<exists>pre w post. c # cs = pre @ w @ post \<and> w \<in> lang p"
    then obtain pre w post where e: "c # cs = pre @ w @ post" and w: "w \<in> lang p" by blast
    show "(\<exists>w t. c # cs = w @ t \<and> w \<in> lang p)
            \<or> (\<exists>pre w post. cs = pre @ w @ post \<and> w \<in> lang p)"
    proof (cases pre)
      case Nil
      with e w show ?thesis by auto
    next
      case (Cons a pre')
      with e have "cs = pre' @ w @ post" by simp
      with w show ?thesis by blast
    qed
  qed
  finally show ?case .
qed

section \<open>Order of the command families\<close>

lemma tryAlts_None: "tryAlts ps s = None \<longleftrightarrow> (\<forall>p \<in> set ps. regexMatch p s = None)"
  by (induction ps) (auto split: option.splits)

lemma tryAlts_Some: "tryAlts ps s = Some m \<Longrightarrow> \<exists>p \<in> set ps. regexMatch p s \<noteq> None"
  using tryAlts_None [of ps s] by auto

lemma familyMatches_lang:
  "familyMatches cmd s \<longleftrightarrow>
     (\<exists>p \<in> set (pattern cmd # altPatterns cmd).
        \<exists>pre w post. s = pre @ w @ post \<and> w \<in> lang p)"
  unfolding familyMatches_def list_ex_iff regexMatch_lang by simp

lemma tryCommands_find:
  "map_option command (tryCommands cmds s) = map_option name (find (\<lambda>c. familyMatches c s) cmds)"
  by (induction cmds)
    (auto simp: familyMatches_def list_ex_iff tryAlts_None dest: tryAlts_Some split: option.splits)

lemma command_findBestCommandMatch:
  "command (findBestCommandMatch input) =
     (case find (\<lambda>c. familyMatches c (trim (toLowerCase input))) commandPatterns of
        Some c \<Rightarrow> name c | None \<Rightarrow> ''unknown'')"
proof -
  let ?L = "trim (toLowerCase input)"
  have "map_option command (tryCommands commandPatterns ?L)
          = map_option name (find (\<lambda>c. familyMatches c ?L) commandPatterns)"
    by (rule tryCommands_find)
  then show ?thesis
    by (auto simp: findBestCommandMatch_def Let_def split: option.splits)
qed

lemma tryCommands_None:
  "tryCommands cmds s = None \<longleftrightarrow> (\<forall>c \<in> set cmds. \<not> familyMatches c s)"
proof -
  have "tryCommands cmds s = None \<longleftrightarrow> map_option command (tryCommands cmds s) = None"
    by simp
  also have "\<dots> \<longleftrightarrow> find (\<lambda>c. familyMatches c s) cmds = None"
    by (simp add: tryCommands_find)
  finally show ?thesis by (auto simp: find_None_iff)
qed

lemma no_match_on_empty: "tryCommands commandPatterns [] = None"
  by code_simp

lemma names_in_order: "map name commandPatterns = [''add'', ''mark'', ''delete'', ''clear'']"
  by (simp add: commandPatterns_def)

lemma first_matching_family:
  assumes "k < length commandPatterns"
    and "familyMatches (commandPatterns ! k) (trim (toLowerCase input))"
    and "\<forall>j<k. \<not> familyMatches (commandPatterns ! j) (trim (toLowerCase input))"
  shows "command (findBestCommandMatch input) = name (commandPatterns ! k)"
proof -
  have "find (\<lambda>c. familyMatches c (trim (toLowerCase input))) commandPatterns
          = Some (commandPatterns ! k)"
    unfolding find_Some_iff using assms by blast
  then show ?thesis
    by (simp add: command_findBestCommandMatch)
qed

text \<open>
  Claim C7. The table lists the families in the order add, mark, delete, clear, and the
  matcher answers with the first family of the table that matches the lower-cased, trimmed
  transcript; so a transcript matched by the add family and by the mark family gets the
  type add.
\<close>

theorem add_checked_before_mark:
  "map name commandPatterns = [''add'', ''mark'', ''delete'', ''clear'']
   \<and> (\<forall>k < length commandPatterns.
         familyMatches (commandPatterns ! k) (trim (toLowerCase input))
         \<and> (\<forall>j<k. \<not> familyMatches (commandPatterns ! j) (trim (toLowerCase input)))
         \<longrightarrow> command (findBestCommandMatch input) = name (commandPatterns ! k))
   \<and> (familyMatches (commandPatterns ! 0) (trim (toLowerCase input))
        \<and> familyMatches (commandPatterns ! 1) (trim (toLowerCase input))
        \<longrightarrow> command (findBestCommandMatch input) = ''add'')"
proof (intro conjI allI impI)
  show "map name commandPatterns = [''add'', ''mark'', ''delete'', ''clear'']"
    by (rule names_in_order)
next
  fix k
  assume "k < length commandPatterns"
    and "familyMatches (commandPatterns ! k) (trim (toLowerCase input))
         \<and> (\<forall>j<k. \<not> familyMatches (commandPatterns ! j) (trim (toLowerCase input)))"
  then show "command (findBestCommandMatch input) = name (commandPatterns ! k)"
    using first_matching_family by blast
next
  assume a: "familyMatches (commandPatterns ! 0) (trim (toLowerCase input))
        \<and> familyMatches (commandPatterns ! 1) (trim (toLowerCase input))"
  have "command (findBestCommandMatch input) = name (commandPatterns ! 0)"
    by (rule first_matching_family) (use a in \<open>simp_all add: commandPatterns_def\<close>)
  then show "command (findBestCommandMatch input) = ''add''"
    by (simp add: commandPatterns_def)
qed

lemma add_complete_report_both:
  "familyMatches (commandPatterns ! 0) (trim (toLowerCase ''Add complete report''))
   \<and> familyMatches (commandPatterns ! 1) (trim (toLowerCase ''Add complete report''))"
  by code_simp

lemma finish_report_mark_only:
  "familyMatches (commandPatterns ! 1) (trim (toLowerCase ''finish report''))
   \<and> (\<forall>j<1. \<not> familyMatches (commandPatterns ! j) (trim (toLowerCase ''finish report'')))"
  by code_simp

theorem add_checked_before_mark_witness:
  "command (findBestCommandMatch ''Add complete report'') = ''add''
   \<and> command (findBestCommandMatch ''finish report'') = ''mark''"
proof -
  have len: "1 < length commandPatterns"
    by (simp add: commandPatterns_def)
  have mark: "name (commandPatterns ! 1) = ''mark''"
    by (simp add: commandPatterns_def)
  have a: "command (findBestCommandMatch ''Add complete report'') = ''add''"
    using add_checked_before_mark [of "''Add complete report''"] add_complete_report_both
    by blast
  have "command (findBestCommandMatch ''finish report'') = name (commandPatterns ! 1)"
    using add_checked_before_mark [of "''finish report''"] finish_report_mark_only len
    by blast
  with a mark show ?thesis
    by simp
qed

text \<open>
  Claim C6. When no family matches, the result has the type unknown and, as content, the
  lower-cased input as the matcher holds it in \<open>lowerInput\<close>, that is trimmed; a transcript
  of whitespace only (the empty one included) gives unknown with empty content. The
  matcher is a total function: it has no failing branch.
\<close>

theorem unmatched_is_unknown:
  "((\<forall>c \<in> set commandPatterns. \<not> familyMatches c (trim (toLowerCase input)))
      \<longrightarrow> findBestCommandMatch input
            = \<lparr>command = ''unknown'', cmd_content = trim (toLowerCase input)\<rparr>)
   \<and> ((\<forall>c \<in> set input. isWhiteSpace c)
      \<longrightarrow> findBestCommandMatch input = \<lparr>command = ''unknown'', cmd_content = []\<rparr>)"
  by (simp add: findBestCommandMatch_def Let_def tryCommands_None [symmetric]
      trim_lower_all_whitespace no_match_on_empty)

lemma hello_there_unmatched:
  "\<forall>c \<in> set commandPatterns. \<not> familyMatches c (trim (toLowerCase '' Hello There''))"
  by code_simp

lemma lower_hello_there: "trim (toLowerCase '' Hello There'') = ''hello there''"
  by code_simp

lemma blanks_are_whitespace: "\<forall>c \<in> set ''   ''. isWhiteSpace c"
  by code_simp

theorem unmatched_is_unknown_witness:
  "findBestCommandMatch '' Hello There''
     = \<lparr>command = ''unknown'', cmd_content = ''hello there''\<rparr>
   \<and> findBestCommandMatch ''   '' = \<lparr>command = ''unknown'', cmd_content = []\<rparr>"
  using unmatched_is_unknown [of "'' Hello There''"] unmatched_is_unknown [of "''   ''"]
    hello_there_unmatched blanks_are_whitespace
  by (simp add: lower_hello_there)

section \<open>The primary pattern of the add family\<close>

lemma trim16_last: "trim16 s \<noteq> [] \<Longrightarrow> \<not> isWhiteSpace16 (last (trim16 s))"
  unfolding trim16_def by (simp add: last_rev hd_dropWhile)

lemma trim16_of_tail:
  assumes "X \<noteq> []" and "\<not> isWhiteSpace16 (last X)"
  shows "trim16 X = dropWhile isWhiteSpace16 X" and "dropWhile isWhiteSpace16 X \<noteq> []"
proof -
  let ?Y = "dropWhile isWhiteSpace16 X"
  from assms have "last X \<in> set X" "\<not> isWhiteSpace16 (last X)" by simp_all
  then show ne: "?Y \<noteq> []"
    by (auto simp: dropWhile_eq_Nil_conv)
  have "last ?Y = last X"
    using ne by (metis last_appendR takeWhile_dropWhile_id)
  with assms(2) have "\<not> isWhiteSpace16 (hd (rev ?Y))"
    using ne by (simp add: hd_rev)
  then have "dropWhile isWhiteSpace16 (rev ?Y) = rev ?Y"
    using ne by (cases "rev ?Y") simp_all
  then show "trim16 X = ?Y"
    by (simp add: trim16_def)
qed

lemma matchHere16_Group_all:
  assumes "Y \<noteq> []" and "\<forall>c \<in> set Y. \<not> isLineTerminator16 c"
  shows "matchHere16 [Group] Y None = Some (Some Y)"
proof -
  from assms(2) have tw: "takeWhile (\<lambda>c. \<not> isLineTerminator16 c) Y = Y"
    by (simp add: takeWhile_eq_all_conv)
  from assms(1) obtain k where k: "length Y = Suc k"
    by (cases Y) simp_all
  show ?thesis
    by (simp add: tw k greedy_Suc)
qed

lemma takeWhile_run16:
  assumes "\<forall>c \<in> set ws. isWhiteSpace16 c" and "Y \<noteq> []" and "\<not> isWhiteSpace16 (hd Y)"
  shows "takeWhile isWhiteSpace16 (ws @ Y) = ws"
proof -
  from assms(2,3) have "takeWhile isWhiteSpace16 Y = []"
    by (cases Y) simp_all
  with assms(1) show ?thesis
    by (simp add: takeWhile_append2)
qed

lemma matchHere16_Spaces_Group:
  assumes "ws \<noteq> []" and "\<forall>c \<in> set ws. isWhiteSpace16 c"
    and "Y \<noteq> []" and "\<not> isWhiteSpace16 (hd Y)" and "\<forall>c \<in> set Y. \<not> isLineTerminator16 c"
  shows "matchHere16 [Spaces, Group] (ws @ Y) None = Some (Some Y)"
proof -
  have tw: "takeWhile isWhiteSpace16 (ws @ Y) = ws"
    using assms(2,3,4) by (rule takeWhile_run16)
  from assms(1) obtain k where k: "length ws = Suc k"
    by (cases ws) simp_all
  have g: "matchHere16 [Group] Y None = Some (Some Y)"
    using assms(3,5) by (rule matchHere16_Group_all)
  have "matchHere16 [Spaces, Group] (ws @ Y) None
          = firstSome (\<lambda>n. matchHere16 [Group] (drop n (ws @ Y)) None) (Suc k # greedy k)"
    by (simp only: matchHere16.simps rx.case tw k greedy_Suc)
  also have "\<dots> = Some (Some Y)"
    using g k by simp
  finally show ?thesis .
qed

lemma units_add_task:
  "units ''add task '' = [97, 100, 100, 32, 116, 97, 115, 107, 32]"
  by (simp add: units_def)

lemma add_task_primary16:
  assumes "\<forall>c \<in> set ws. isWhiteSpace16 c"
    and "Y \<noteq> []" and "\<not> isWhiteSpace16 (hd Y)" and "\<forall>c \<in> set Y. \<not> isLineTerminator16 c"
  shows "regexMatch16 [Lit ''add'', Spaces, Lit ''task'', Spaces, Group]
           (units ''add task '' @ ws @ Y) = Some (Some Y)"
proof -
  have sp: "isWhiteSpace16 32" "\<not> isWhiteSpace16 116"
    by (simp_all add: isWhiteSpace16_def isLineTerminator16_def)
  have sg: "matchHere16 [Spaces, Group] ((32 # ws) @ Y) None = Some (Some Y)"
    using assms by (intro matchHere16_Spaces_Group) (simp_all add: sp)
  have "matchHere16 [Lit ''add'', Spaces, Lit ''task'', Spaces, Group]
           (units ''add task '' @ ws @ Y) None = Some (Some Y)"
    using sg by (simp add: units_add_task units_def foldCase16_def sp greedy_Suc greedy_0)
  then show ?thesis
    by (simp add: units_add_task)
qed

text \<open>
  Claim C5, amended. When the lower-cased, trimmed transcript is "add task " followed by
  a non-empty \<open>X\<close> whose trimmed form holds no line terminator (LF, CR, U+2028, U+2029), the
  matcher returns the type add with the trimmed \<open>X\<close> as content. This is proved over all
  code units and for any function in the place of \<open>toLowerCase\<close>.
\<close>

theorem add_task_yields_add:
  assumes "trim16 (toLower input) = units ''add task '' @ X"
    and "X \<noteq> []"
    and "\<forall>c \<in> set (trim16 X). \<not> isLineTerminator16 c"
  shows "findBestCommandMatch16 toLower input
           = \<lparr>command16 = ''add'', content16 = trim16 X\<rparr>"
proof -
  let ?L = "trim16 (toLower input)"
  let ?ws = "takeWhile isWhiteSpace16 X"
  let ?Y = "dropWhile isWhiteSpace16 X"
  have "?L \<noteq> []" using assms(1) by (simp add: units_add_task)
  then have "\<not> isWhiteSpace16 (last ?L)" by (rule trim16_last)
  with assms(1,2) have lastX: "\<not> isWhiteSpace16 (last X)" by simp
  from trim16_of_tail [OF assms(2) lastX] have tY: "trim16 X = ?Y" and ne: "?Y \<noteq> []" .
  have hdY: "\<not> isWhiteSpace16 (hd ?Y)"
    using ne by (rule hd_dropWhile)
  have wsP: "\<forall>c \<in> set ?ws. isWhiteSpace16 c"
    by (auto dest: set_takeWhileD)
  have "regexMatch16 [Lit ''add'', Spaces, Lit ''task'', Spaces, Group]
           (units ''add task '' @ ?ws @ ?Y) = Some (Some ?Y)"
    using wsP ne hdY assms(3) [unfolded tY] by (rule add_task_primary16)
  then have "regexMatch16 [Lit ''add'', Spaces, Lit ''task'', Spaces, Group] ?L
               = Some (Some ?Y)"
    by (simp add: assms(1))
  then show ?thesis
    by (simp add: findBestCommandMatch16_def Let_def commandPatterns_def orEmpty16_def tY)
qed

lemma lower_trim_Add_Task:
  "trim16 (map foldCase16 (units ''  Add Task  Buy Milk ''))
     = units ''add task '' @ units '' buy milk''"
  by (simp add: units_def foldCase16_def trim16_def isWhiteSpace16_def isLineTerminator16_def)

lemma trim_buy_milk: "trim16 (units '' buy milk'') = units ''buy milk''"
  by (simp add: units_def foldCase16_def trim16_def isWhiteSpace16_def isLineTerminator16_def)

lemma no_lt_buy_milk: "\<forall>c \<in> set (trim16 (units '' buy milk'')). \<not> isLineTerminator16 c"
  by (simp add: units_def foldCase16_def trim16_def isWhiteSpace16_def isLineTerminator16_def)

text \<open>On a transcript of ASCII characters \<open>toLowerCase\<close> folds the letters A to Z.\<close>

theorem add_task_yields_add_witness:
  "findBestCommandMatch16 (map foldCase16) (units ''  Add Task  Buy Milk '')
     = \<lparr>command16 = ''add'', content16 = units ''buy milk''\<rparr>"
proof -
  have ne: "units '' buy milk'' \<noteq> []"
    by (simp add: units_def)
  from add_task_yields_add [of "map foldCase16" "units ''  Add Task  Buy Milk ''"
      "units '' buy milk''", OF lower_trim_Add_Task ne no_lt_buy_milk]
  show ?thesis
    by (simp add: trim_buy_milk)
qed

lemmas eval16 = units_def foldCase16_def trim16_def isWhiteSpace16_def isLineTerminator16_def
  findBestCommandMatch16_def commandPatterns_def orEmpty16_def greedy_Suc greedy_0 Let_def

text \<open>
  Claim C5 as stated fails when \<open>X\<close> spans two lines: \<open>.\<close> stops at the line feed, and
  likewise at the line separator U+2028, and the content is the first line only.
\<close>

theorem add_task_multiline_counterexample:
  "findBestCommandMatch16 (map foldCase16) (units ''add task a'' @ [0x0A] @ units ''b'')
     = \<lparr>command16 = ''add'', content16 = units ''a''\<rparr>
   \<and> trim16 (map foldCase16 (units ''a'' @ [0x0A] @ units ''b'')) \<noteq> units ''a''
   \<and> findBestCommandMatch16 (map foldCase16) (units ''add task a'' @ [0x2028] @ units ''b'')
     = \<lparr>command16 = ''add'', content16 = units ''a''\<rparr>
   \<and> trim16 (map foldCase16 (units ''a'' @ [0x2028] @ units ''b'')) \<noteq> units ''a''"
  by (simp add: eval16)

section \<open>Agreement of the two matchers\<close>

text \<open>
  On a string of code units below 256 the matcher over all code units returns what the
  matcher above returns, provided its argument lower-cases such a string as \<open>toLowerCase\<close>
  does.
\<close>

lemma isWhiteSpace16_of_char: "isWhiteSpace16 (of_char c) = isWhiteSpace c"
proof -
  define n where "n = (of_char c :: nat)"
  have "n < 256" by (simp add: n_def)
  then have "isWhiteSpace16 n
      = (n = 9 \<or> n = 10 \<or> n = 11 \<or> n = 12 \<or> n = 13 \<or> n = 32 \<or> n = 160)"
    by (auto simp: isWhiteSpace16_def isLineTerminator16_def)
  then show ?thesis
    by (simp add: isWhiteSpace_def Let_def n_def)
qed

lemma isLineTerminator16_of_char: "isLineTerminator16 (of_char c) = isLineTerminator c"
proof -
  define n where "n = (of_char c :: nat)"
  have "n < 256" by (simp add: n_def)
  then have "isLineTerminator16 n = (n = 10 \<or> n = 13)"
    by (auto simp: isLineTerminator16_def)
  then show ?thesis
    by (simp add: isLineTerminator_def Let_def n_def)
qed

lemma units_Nil: "units [] = []"
  by (simp add: units_def)

lemma units_Cons: "units (c # cs) = of_char c # units cs"
  by (simp add: units_def)

lemma units_dropWhile_ws: "dropWhile isWhiteSpace16 (units s) = units (dropWhile isWhiteSpace s)"
  by (induction s) (simp_all add: units_def isWhiteSpace16_of_char)

lemma units_rev: "rev (units s) = units (rev s)"
  by (simp add: units_def rev_map)

lemma trim16_units: "trim16 (units s) = units (trim s)"
  by (simp add: trim16_def trim_def units_dropWhile_ws units_rev)

lemma units_takeWhile_ws:
  "length (takeWhile isWhiteSpace16 (units s)) = length (takeWhile isWhiteSpace s)"
  by (induction s) (simp_all add: units_def isWhiteSpace16_of_char)

lemma units_takeWhile_lt:
  "length (takeWhile (\<lambda>c. \<not> isLineTerminator16 c) (units s))
     = length (takeWhile (\<lambda>c. \<not> isLineTerminator c) s)"
  by (induction s) (simp_all add: units_def isLineTerminator16_of_char)

lemma units_take: "take n (units s) = units (take n s)"
  by (simp add: units_def take_map)

lemma units_drop: "drop n (units s) = units (drop n s)"
  by (simp add: units_def drop_map)

lemma units_inj: "units a = units b \<longleftrightarrow> a = b"
  by (simp add: units_def inj_map_eq_map [OF inj_of_char])

lemma letter_match:
  assumes "97 \<le> (of_char p :: nat)" and "(of_char p :: nat) \<le> 122"
  shows "foldCase16 (of_char c) = foldCase16 (of_char p) \<longleftrightarrow> toLowerChar c = toLowerChar p"
proof -
  have p: "toLowerChar p = p" "foldCase16 (of_char p) = of_char p"
    using assms by (simp_all add: toLowerChar_def foldCase16_def Let_def)
  have c: "(of_char c :: nat) < 256" by simp
  show ?thesis
  proof (cases "65 \<le> (of_char c :: nat) \<and> (of_char c :: nat) \<le> 90")
    case True
    then have "toLowerChar c = char_of (of_char c + 32 :: nat)"
      by (simp add: toLowerChar_def Let_def)
    moreover have "char_of (of_char c + 32 :: nat) = p \<longleftrightarrow> (of_char c + 32 :: nat) = of_char p"
      using True by (simp add: char_of_eq_iff take_bit_eq_mod)
    ultimately show ?thesis
      using True p by (simp add: foldCase16_def)
  next
    case False
    note notcap = this
    show ?thesis
    proof (cases "192 \<le> (of_char c :: nat) \<and> (of_char c :: nat) \<le> 222 \<and> (of_char c :: nat) \<noteq> 215")
      case True
      then have "toLowerChar c = char_of (of_char c + 32 :: nat)"
        by (simp add: toLowerChar_def Let_def)
      moreover have "char_of (of_char c + 32 :: nat) = p \<longleftrightarrow> (of_char c + 32 :: nat) = of_char p"
        using True by (simp add: char_of_eq_iff take_bit_eq_mod)
      moreover have "c \<noteq> p"
        using True assms by auto
      ultimately show ?thesis
        using True p assms by (simp add: foldCase16_def)
    next
      case False
      with notcap have "toLowerChar c = c"
        by (auto simp: toLowerChar_def Let_def)
      moreover from notcap have "foldCase16 (of_char c) = of_char c"
        by (auto simp: foldCase16_def)
      ultimately show ?thesis
        using p by simp
    qed
  qed
qed

lemma literal_match:
  assumes "lowerLetters l"
  shows "map foldCase16 (units u) = map foldCase16 (units l) \<longleftrightarrow> toLowerCase u = toLowerCase l"
  using assms
proof (induction u arbitrary: l)
  case Nil
  then show ?case by (simp add: units_def toLowerCase_def)
next
  case (Cons c u)
  show ?case
  proof (cases l)
    case Nil
    then show ?thesis by (simp add: units_def toLowerCase_def)
  next
    case (Cons p l')
    with Cons.prems have p: "97 \<le> (of_char p :: nat)" "(of_char p :: nat) \<le> 122"
      and l': "lowerLetters l'"
      by (simp_all add: lowerLetters_def)
    from Cons.IH [OF l'] letter_match [OF p, of c] Cons show ?thesis
      by (simp add: units_def toLowerCase_def)
  qed
qed

lemma firstSome_map_option:
  "firstSome (\<lambda>n. map_option g (f n)) ns = map_option g (firstSome f ns)"
  by (induction ns) (auto split: option.splits)

lemma matchHere16_units:
  assumes "\<forall>l. Lit l \<in> set p \<longrightarrow> lowerLetters l"
  shows "matchHere16 p (units s) (map_option units cap)
           = map_option (map_option units) (matchHere p s cap)"
  using assms
proof (induction p arbitrary: s cap)
  case Nil
  then show ?case by simp
next
  case (Cons x r)
  from Cons.prems have r: "\<forall>l. Lit l \<in> set r \<longrightarrow> lowerLetters l" by simp
  note IH = Cons.IH [OF r]
  show ?case
  proof (cases x)
    case (Lit l)
    with Cons.prems have "lowerLetters l" by simp
    from literal_match [OF this, of "take (length l) s"] Lit IH [of "drop (length l) s" cap]
    show ?thesis
      by (simp add: units_take units_drop)
  next
    case Spaces
    have "matchHere16 (x # r) (units s) (map_option units cap)
            = firstSome (\<lambda>n. map_option (map_option units) (matchHere r (drop n s) cap))
                (greedy (length (takeWhile isWhiteSpace s)))"
      using Spaces by (simp add: units_takeWhile_ws units_drop IH)
    then show ?thesis
      using Spaces by (simp add: firstSome_map_option)
  next
    case Group
    have "matchHere16 (x # r) (units s) (map_option units cap)
            = firstSome (\<lambda>n. map_option (map_option units)
                                (matchHere r (drop n s) (Some (take n s))))
                (greedy (length (takeWhile (\<lambda>c. \<not> isLineTerminator c) s)))"
      using Group IH [of _ "Some _"] by (simp add: units_takeWhile_lt units_drop units_take)
    then show ?thesis
      using Group by (simp add: firstSome_map_option)
  qed
qed

lemma regexMatch16_units:
  assumes "\<forall>l. Lit l \<in> set p \<longrightarrow> lowerLetters l"
  shows "regexMatch16 p (units s) = map_option (map_option units) (regexMatch p s)"
proof (induction s)
  case Nil
  from matchHere16_units [OF assms, of "[]" None] show ?case
    by (simp add: units_Nil)
next
  case (Cons c cs)
  from matchHere16_units [OF assms, of "c # cs" None] Cons show ?case
    by (simp add: units_Cons split: option.splits)
qed

lemma table_letters:
  "\<forall>cmd \<in> set commandPatterns. \<forall>p \<in> set (pattern cmd # altPatterns cmd).
     \<forall>l. Lit l \<in> set p \<longrightarrow> lowerLetters l"
  by (simp add: commandPatterns_def lowerLetters_def)

lemma orEmpty16_units: "orEmpty16 (map_option units m) = units (orEmpty m)"
  by (cases m) (simp_all add: orEmpty16_def orEmpty_def units_Nil)

lemma tryAlts16_units:
  assumes "\<forall>p \<in> set ps. \<forall>l. Lit l \<in> set p \<longrightarrow> lowerLetters l"
  shows "tryAlts16 ps (units s) = map_option (map_option units) (tryAlts ps s)"
  using assms
proof (induction ps)
  case Nil
  then show ?case by simp
next
  case (Cons p ps)
  then have "regexMatch16 p (units s) = map_option (map_option units) (regexMatch p s)"
    by (intro regexMatch16_units) simp
  with Cons show ?case
    by (simp split: option.splits)
qed

lemma tryCommands16_units:
  assumes "\<forall>cmd \<in> set cmds. \<forall>p \<in> set (pattern cmd # altPatterns cmd).
             \<forall>l. Lit l \<in> set p \<longrightarrow> lowerLetters l"
  shows "tryCommands16 cmds (units s)
           = map_option (\<lambda>m. \<lparr>command16 = command m, content16 = units (cmd_content m)\<rparr>)
               (tryCommands cmds s)"
  using assms
proof (induction cmds)
  case Nil
  then show ?case by simp
next
  case (Cons cmd cmds)
  then have a: "regexMatch16 (pattern cmd) (units s)
                  = map_option (map_option units) (regexMatch (pattern cmd) s)"
    by (intro regexMatch16_units) simp
  from Cons.prems have b: "tryAlts16 (altPatterns cmd) (units s)
                  = map_option (map_option units) (tryAlts (altPatterns cmd) s)"
    by (intro tryAlts16_units) simp
  from Cons show ?case
    by (simp add: a b orEmpty16_units split: option.splits)
qed

lemma findBestCommandMatch16_units:
  assumes "toLower (units input) = units (toLowerCase input)"
  shows "findBestCommandMatch16 toLower (units input)
           = \<lparr>command16 = command (findBestCommandMatch input),
              content16 = units (cmd_content (findBestCommandMatch input))\<rparr>"
  using tryCommands16_units [OF table_letters, of "trim (toLowerCase input)"]
  by (simp add: findBestCommandMatch16_def findBestCommandMatch_def Let_def assms trim16_units
      split: option.splits)

section \<open>The transcript "add task" alone\<close>

lemma match_add_task:
  "findBestCommandMatch ''add task'' = \<lparr>command = ''add'', cmd_content = ''task''\<rparr>"
  by code_simp

lemma includes_add_task:
  "toLowerCase ''add task'' = ''add task''
   \<and> includes_str ''add task'' ''add task''
   \<and> trim (replace_first ''add task'' ''add task'') = []"
  by code_simp

lemma tryAlts_source:
  "tryAlts ps s = Some m \<Longrightarrow> \<exists>p \<in> set ps. regexMatch p s = Some m"
  by (induction ps) (auto split: option.splits)

lemma tryCommands_source:
  "tryCommands cmds s = Some r \<Longrightarrow>
     \<exists>c \<in> set cmds. \<exists>p \<in> set (pattern c # altPatterns c). \<exists>m.
       regexMatch p s = Some m \<and> command r = name c \<and> cmd_content r = orEmpty m"
proof (induction cmds)
  case Nil
  then show ?case by simp
next
  case (Cons c cmds)
  have here: "c \<in> set (c # cmds)" by simp
  show ?case
  proof (cases "regexMatch (pattern c) s")
    case (Some m)
    with Cons.prems have "command r = name c" "cmd_content r = orEmpty m"
      by auto
    moreover have "pattern c \<in> set (pattern c # altPatterns c)" by simp
    ultimately show ?thesis using here Some by blast
  next
    case None
    note primary = this
    show ?thesis
    proof (cases "tryAlts (altPatterns c) s")
      case (Some m)
      with primary Cons.prems have "command r = name c" "cmd_content r = orEmpty m"
        by auto
      moreover from tryAlts_source [OF Some] obtain p
        where "p \<in> set (pattern c # altPatterns c)" "regexMatch p s = Some m"
        by auto
      ultimately show ?thesis using here by blast
    next
      case None
      with primary Cons.prems have "tryCommands cmds s = Some r" by simp
      from Cons.IH [OF this] obtain c' p m
        where "c' \<in> set (c # cmds)" "p \<in> set (pattern c' # altPatterns c')"
          "regexMatch p s = Some m" "command r = name c'" "cmd_content r = orEmpty m"
        by auto
      then show ?thesis by blast
    qed
  qed
qed

lemma capturing_families:
  "\<forall>c \<in> set commandPatterns. name c \<in> {''add'', ''mark'', ''delete''}
     \<longrightarrow> (\<forall>p \<in> set (pattern c # altPatterns c). Group \<in> set p)"
  by (simp add: commandPatterns_def)

lemma captured_content_not_empty:
  assumes "command (findBestCommandMatch input) \<in> {''add'', ''mark'', ''delete''}"
  shows "cmd_content (findBestCommandMatch input) \<noteq> []"
proof (cases "tryCommands commandPatterns (trim (toLowerCase input))")
  case None
  with assms show ?thesis
    by (simp add: findBestCommandMatch_def Let_def)
next
  case (Some r)
  then have r: "findBestCommandMatch input = r"
    by (simp add: findBestCommandMatch_def Let_def)
  from tryCommands_source [OF Some] obtain c p m
    where c: "c \<in> set commandPatterns" and p: "p \<in> set (pattern c # altPatterns c)"
      and m: "regexMatch p (trim (toLowerCase input)) = Some m"
      and n: "command r = name c" and k: "cmd_content r = orEmpty m"
    by blast
  from assms r n have "name c \<in> {''add'', ''mark'', ''delete''}" by simp
  with c p capturing_families have "Group \<in> set p"
    by blast
  from regexMatch_Group_capture [OF this m] k r show ?thesis by simp
qed

text \<open>
  Claim C4. For the transcript "add task" the primary pattern of the add family fails and
  the fallback \<open>add\s+(.+)\<close> captures "task": the matcher returns the type add with
  content "task", and applying the command appends a task with that content and reports
  that it was added. The branch reporting "No task content specified" is never
  taken: a match of the add, mark or delete family always has a non-empty content
  (\<open>captured_content_not_empty\<close>). The version built on \<open>includes\<close> leaves the state as
  it was and sets no status.
\<close>

theorem add_task_alone_adds_a_task:
  \<open>findBestCommandMatch ''add task'' = \<lparr>command = ''add'', cmd_content = ''task''\<rparr>
   \<and> tasks (processVoiceCommand_regex 1000 True ''add task'' (initial_state True))
       = [\<lparr>task_id = 1000, content = ''task'', completed = False\<rparr>]
   \<and> feedback (processVoiceCommand_regex 1000 True ''add task'' (initial_state True))
       = ''Added task: "task"''
   \<and> processVoiceCommand_includes 1000 True ''add task'' (initial_state True)
       = initial_state True\<close>
  by (simp add: processVoiceCommand_regex_def processVoiceCommand_includes_def Let_def
      match_add_task includes_add_task addTask_def initial_state_def trim_def)

section \<open>The pending-command flag\<close>

lemma clearInputs_fields:
  "transcript (clearInputs s) = []" "editedTranscript (clearInputs s) = []"
  "processingCommand (clearInputs s) = False" "tasks (clearInputs s) = tasks s"
  by (simp_all add: clearInputs_def)

lemma listeningEffect_inputs:
  "tasks (fst (listeningEffect v g s)) = tasks s"
  "transcript (fst (listeningEffect v g s)) = transcript s"
  "editedTranscript (fst (listeningEffect v g s)) = editedTranscript s"
  "processingCommand (fst (listeningEffect v g s)) = processingCommand s"
  by (cases v; cases "recognitionRef s";
      simp add: listeningEffect_def setupSpeechGrammars_def Let_def)+

lemma thenEffect_inputs:
  "tasks (fst (thenEffect v g s r)) = tasks (fst r)"
  "transcript (fst (thenEffect v g s r)) = transcript (fst r)"
  "editedTranscript (fst (thenEffect v g s r)) = editedTranscript (fst r)"
  "processingCommand (fst (thenEffect v g s r)) = processingCommand (fst r)"
  by (simp_all add: thenEffect_def listeningEffect_inputs)

lemma endDelivered_inputs:
  "tasks (endDelivered obj s) = tasks s"
  "transcript (endDelivered obj s) = transcript s"
  "editedTranscript (endDelivered obj s) = editedTranscript s"
  "processingCommand (endDelivered obj s) = processingCommand s"
  by (cases obj; simp)+

lemma onend_inputs:
  "tasks (fst (onend obj thr s)) = tasks s"
  "transcript (fst (onend obj thr s)) = transcript s"
  "editedTranscript (fst (onend obj thr s)) = editedTranscript s"
  "processingCommand (fst (onend obj thr s)) = processingCommand s"
  by (simp_all add: onend_def Let_def endDelivered_inputs split: option.splits)

lemma toggleListening_inputs:
  "tasks (fst (toggleListening err s)) = tasks s"
  "(transcript (fst (toggleListening err s)) = transcript s
    \<and> editedTranscript (fst (toggleListening err s)) = editedTranscript s
    \<and> processingCommand (fst (toggleListening err s)) = processingCommand s)
   \<or> (transcript (fst (toggleListening err s)) = []
    \<and> editedTranscript (fst (toggleListening err s)) = []
    \<and> \<not> processingCommand (fst (toggleListening err s)))"
  by (simp_all add: toggleListening_def clearInputs_def split: option.splits)

lemma step_ToggleListening_inputs:
  "tasks (step v (ToggleListening err g) s) = tasks s"
  "(transcript (step v (ToggleListening err g) s) = transcript s
    \<and> editedTranscript (step v (ToggleListening err g) s) = editedTranscript s
    \<and> processingCommand (step v (ToggleListening err g) s) = processingCommand s)
   \<or> (transcript (step v (ToggleListening err g) s) = []
    \<and> editedTranscript (step v (ToggleListening err g) s) = []
    \<and> \<not> processingCommand (step v (ToggleListening err g) s))"
  using toggleListening_inputs [of err s] by (simp_all add: thenEffect_inputs)

lemma step_pending:
  assumes "(processingCommand s \<and> trim (transcript s) \<noteq> [])
           \<or> (\<not> processingCommand s \<and> transcript s = [])"
  shows "(processingCommand (step v e s) \<and> trim (transcript (step v e s)) \<noteq> [])
         \<or> (\<not> processingCommand (step v e s) \<and> transcript (step v e s) = [])"
proof (cases e)
  case (OnResult rs)
  with assms show ?thesis by (auto simp: onresult_def Let_def)
next
  case (OnError x)
  then show ?thesis by (simp add: onerror_def clearInputs_fields)
next
  case (OnEnd obj thr g)
  with assms show ?thesis by (simp add: thenEffect_inputs onend_inputs)
next
  case OnStart
  then show ?thesis by (simp add: onstart_def clearInputs_fields)
next
  case (ToggleListening err g)
  with assms step_ToggleListening_inputs(2) [of v err g s] show ?thesis
    by (auto simp: trim_Nil)
next
  case ToggleEditing
  with assms show ?thesis by (simp add: toggleEditing_def)
next
  case (TranscriptChange x)
  with assms show ?thesis by (simp add: handleTranscriptChange_def)
next
  case (Finish now eager)
  with assms show ?thesis by (auto simp: finishCurrentCommand_def clearInputs_fields)
next
  case Cancel
  then show ?thesis by (simp add: cancelCurrentCommand_def clearInputs_fields)
next
  case (ManualDelete i)
  with assms show ?thesis by (simp add: handleManualDelete_def)
next
  case (ManualToggle i)
  with assms show ?thesis by (simp add: handleManualToggle_def)
qed

lemma run_pending:
  assumes "(processingCommand s \<and> trim (transcript s) \<noteq> [])
           \<or> (\<not> processingCommand s \<and> transcript s = [])"
  shows "(processingCommand (run v evs s) \<and> trim (transcript (run v evs s)) \<noteq> [])
         \<or> (\<not> processingCommand (run v evs s) \<and> transcript (run v evs s) = [])"
  using assms
proof (induction evs arbitrary: s)
  case Nil
  then show ?case by simp
next
  case (Cons e es)
  from Cons.prems have "(processingCommand (step v e s) \<and> trim (transcript (step v e s)) \<noteq> [])
         \<or> (\<not> processingCommand (step v e s) \<and> transcript (step v e s) = [])"
    by (rule step_pending)
  then show ?case
    using Cons.IH by simp
qed

lemma step_offered_idle:
  assumes "processingCommand s \<or> (transcript s = [] \<and> editedTranscript s = [])"
    and "offered e s"
  shows "processingCommand (step v e s)
         \<or> (transcript (step v e s) = [] \<and> editedTranscript (step v e s) = [])"
proof (cases e)
  case (OnResult rs)
  with assms show ?thesis by (auto simp: onresult_def Let_def)
next
  case (OnError x)
  then show ?thesis by (simp add: onerror_def clearInputs_fields)
next
  case (OnEnd obj thr g)
  with assms show ?thesis by (simp add: thenEffect_inputs onend_inputs)
next
  case OnStart
  then show ?thesis by (simp add: onstart_def clearInputs_fields)
next
  case (ToggleListening err g)
  with assms step_ToggleListening_inputs(2) [of v err g s] show ?thesis
    by (auto simp: trim_Nil)
next
  case ToggleEditing
  with assms show ?thesis by (simp add: toggleEditing_def)
next
  case (TranscriptChange x)
  with assms show ?thesis by (auto simp: handleTranscriptChange_def)
next
  case (Finish now eager)
  with assms show ?thesis by (auto simp: finishCurrentCommand_def clearInputs_fields)
next
  case Cancel
  then show ?thesis by (simp add: cancelCurrentCommand_def clearInputs_fields)
next
  case (ManualDelete i)
  with assms show ?thesis by (simp add: handleManualDelete_def)
next
  case (ManualToggle i)
  with assms show ?thesis by (simp add: handleManualToggle_def)
qed

lemma runOffered_idle:
  assumes "processingCommand s \<or> (transcript s = [] \<and> editedTranscript s = [])"
    and "runOffered v evs s = Some s'"
  shows "processingCommand s' \<or> (transcript s' = [] \<and> editedTranscript s' = [])"
  using assms
proof (induction evs arbitrary: s)
  case Nil
  then show ?case by simp
next
  case (Cons e es)
  from Cons.prems(2) have off: "offered e s" and rest: "runOffered v es (step v e s) = Some s'"
    by (simp_all split: if_splits)
  from Cons.prems(1) off
  have "processingCommand (step v e s)
         \<or> (transcript (step v e s) = [] \<and> editedTranscript (step v e s) = [])"
    by (rule step_offered_idle)
  then show ?case
    using rest by (rule Cons.IH)
qed

lemma runOffered_run: "runOffered v evs s = Some s' \<Longrightarrow> s' = run v evs s"
  by (induction evs arbitrary: s) (simp_all split: if_splits)

lemma finish_blank:
  "trim (editedTranscript s) = [] \<Longrightarrow>
     finishCurrentCommand v now eager s = s\<lparr>feedback := ''No command to process''\<rparr>"
  by (simp add: finishCurrentCommand_def)

text \<open>
  Claim C3, amended. In every state reached from the initial one, \<open>processingCommand\<close> is
  true exactly when the recognised transcript is not blank. In every state reached through
  the controls the page offers, a non-blank editable transcript implies the flag. The
  flag may be true while the editable transcript is blank; confirming then changes nothing
  but the status, which becomes "No command to process".
\<close>

theorem pending_flag_tracks_raw_transcript:
  "(processingCommand (run v evs (initial_state supported))
      \<longleftrightarrow> trim (transcript (run v evs (initial_state supported))) \<noteq> [])
   \<and> (\<forall>s. runOffered v evs (initial_state supported) = Some s
          \<longrightarrow> trim (editedTranscript s) \<noteq> [] \<longrightarrow> processingCommand s)
   \<and> (\<forall>s. trim (editedTranscript s) = []
          \<longrightarrow> finishCurrentCommand v now eager s = s\<lparr>feedback := ''No command to process''\<rparr>)"
proof (intro conjI allI impI)
  have "(processingCommand (run v evs (initial_state supported))
           \<and> trim (transcript (run v evs (initial_state supported))) \<noteq> [])
         \<or> (\<not> processingCommand (run v evs (initial_state supported))
           \<and> transcript (run v evs (initial_state supported)) = [])"
    by (rule run_pending) (simp add: initial_state_def)
  then show "processingCommand (run v evs (initial_state supported))
      \<longleftrightarrow> trim (transcript (run v evs (initial_state supported))) \<noteq> []"
    by (auto simp: trim_Nil)
next
  fix s :: app_state
  assume r: "runOffered v evs (initial_state supported) = Some s" and e: "trim (editedTranscript s) \<noteq> []"
  have "processingCommand s \<or> (transcript s = [] \<and> editedTranscript s = [])"
    by (rule runOffered_idle [OF _ r]) (simp add: initial_state_def)
  with e show "processingCommand s"
    by (auto simp: trim_Nil)
next
  fix s :: app_state
  assume "trim (editedTranscript s) = []"
  then show "finishCurrentCommand v now eager s = s\<lparr>feedback := ''No command to process''\<rparr>"
    by (rule finish_blank)
qed

lemma trim_hello: "trim ''hello'' = ''hello''"
  by code_simp

lemma emptied_edit_state:
  "runOffered RegexMatcher emptied_edit (initial_state True)
     = Some \<lparr>tasks = [], listening = True, transcript = ''hello'', editedTranscript = [],
          feedback = ''Listening... (Language: English)'', processingCommand = True,
          isEditing = True,
          recognitionRef = Some \<lparr>closure_listening = True, started = False\<rparr>,
          replaced = [\<lparr>closure_listening = False, started = True\<rparr>]\<rparr>"
  by (simp add: emptied_edit_def initial_state_def toggleListening_def clearInputs_def
      thenEffect_def listeningEffect_def setupSpeechGrammars_def
      onstart_def onresult_def Let_def trim_hello toggleEditing_def handleTranscriptChange_def)

text \<open>
  Claim C3 as stated fails: after a transcript has been recognised, the user opens the
  text field and empties it; the flag is still true and the transcript to be committed is
  empty.
\<close>

theorem pending_flag_with_empty_edit_counterexample:
  "map_option processingCommand (runOffered RegexMatcher emptied_edit (initial_state True)) = Some True
   \<and> map_option editedTranscript (runOffered RegexMatcher emptied_edit (initial_state True)) = Some []"
  by (simp add: emptied_edit_state)

theorem pending_flag_tracks_raw_transcript_witness:
  "processingCommand (run RegexMatcher emptied_edit (initial_state True))
   \<and> tasks (finishCurrentCommand RegexMatcher 7 True (run RegexMatcher emptied_edit (initial_state True))) = []
   \<and> feedback (finishCurrentCommand RegexMatcher 7 True (run RegexMatcher emptied_edit (initial_state True)))
       = ''No command to process''"
proof -
  let ?s = "run RegexMatcher emptied_edit (initial_state True)"
  have s: "?s = \<lparr>tasks = [], listening = True, transcript = ''hello'', editedTranscript = [],
          feedback = ''Listening... (Language: English)'', processingCommand = True,
          isEditing = True,
          recognitionRef = Some \<lparr>closure_listening = True, started = False\<rparr>,
          replaced = [\<lparr>closure_listening = False, started = True\<rparr>]\<rparr>"
    using runOffered_run [OF emptied_edit_state] by simp
  have t: "trim (transcript ?s) \<noteq> []" and b: "trim (editedTranscript ?s) = []"
    by (simp_all add: s trim_hello trim_Nil)
  from pending_flag_tracks_raw_transcript [of RegexMatcher emptied_edit True 7 True] t b
  have "processingCommand ?s"
    and "finishCurrentCommand RegexMatcher 7 True ?s = ?s\<lparr>feedback := ''No command to process''\<rparr>"
    by blast+
  then show ?thesis
    by (simp add: s)
qed

section \<open>Task identifiers\<close>

lemma subseq_distinct_ids:
  "subseq xs ys \<Longrightarrow> distinct ys \<Longrightarrow> distinct xs"
proof (induction rule: list_emb.induct)
  case (list_emb_Nil ys)
  then show ?case by simp
next
  case (list_emb_Cons xs ys y)
  then show ?case by simp
next
  case (list_emb_Cons2 x y xs ys)
  have "set xs \<subseteq> set ys"
    using list_emb_set [OF list_emb_Cons2.hyps(2)] by auto
  with list_emb_Cons2 show ?case by auto
qed

text \<open>What a processed command can do to the task list.\<close>

lemma markTaskAsDone_ids:
  "map task_id (tasks (markTaskAsDone eager c s)) = map task_id (tasks s)"
  by (simp add: markTaskAsDone_def Let_def comp_def if_distrib cong: if_cong)

lemma markTaskAsDone_length:
  "length (tasks (markTaskAsDone eager c s)) = length (tasks s)"
  by (simp add: markTaskAsDone_def Let_def)

lemma deleteTask_filter:
  "tasks (deleteTask c s) = filter (\<lambda>t. \<not> taskMatches c t) (tasks s)"
  by (simp add: deleteTask_def Let_def)

lemma processVoiceCommand_tasks:
  "(\<exists>c. tasks (processVoiceCommand v now eager cmd s)
          = tasks s @ [\<lparr>task_id = now, content = c, completed = False\<rparr>])
   \<or> (length (tasks (processVoiceCommand v now eager cmd s)) \<le> length (tasks s)
      \<and> subseq (map task_id (tasks (processVoiceCommand v now eager cmd s)))
           (map task_id (tasks s)))"
proof (cases v)
  case RegexMatcher
  then show ?thesis
    by (simp add: processVoiceCommand_def processVoiceCommand_regex_def Let_def addTask_def
        markTaskAsDone_ids markTaskAsDone_length deleteTask_filter subseq_map)
next
  case SubstringMatcher
  then show ?thesis
    by (simp add: processVoiceCommand_def processVoiceCommand_includes_def Let_def addTask_def
        markTaskAsDone_ids markTaskAsDone_length deleteTask_filter subseq_map)
qed

lemma step_tasks:
  "(\<exists>now eager c. e = Finish now eager
       \<and> tasks (step v e s) = tasks s @ [\<lparr>task_id = now, content = c, completed = False\<rparr>])
   \<or> (length (tasks (step v e s)) \<le> length (tasks s)
      \<and> subseq (map task_id (tasks (step v e s))) (map task_id (tasks s)))"
proof (cases e)
  case (Finish now eager)
  from processVoiceCommand_tasks [of v now eager "editedTranscript s" s] Finish
  show ?thesis
    by (auto simp: finishCurrentCommand_def clearInputs_def)
next
  case (ToggleListening err g)
  then show ?thesis
    by (simp add: thenEffect_inputs toggleListening_inputs(1))
next
  case (OnEnd obj thr g)
  then show ?thesis
    by (simp add: thenEffect_inputs onend_inputs)
next
  case (ManualDelete i)
  then show ?thesis
    by (simp add: handleManualDelete_def subseq_map)
next
  case (ManualToggle i)
  then show ?thesis
    by (simp add: handleManualToggle_def comp_def if_distrib cong: if_cong)
qed (simp_all add: onresult_def Let_def onerror_def onstart_def clearInputs_def
      toggleEditing_def handleTranscriptChange_def cancelCurrentCommand_def)

lemma step_ids_subseq:
  "subseq (map task_id (tasks (step v e s))) (map task_id (tasks s) @ stamps [e])"
  using step_tasks [of e v s]
proof (elim disjE exE conjE)
  fix now eager c
  assume "e = Finish now eager"
    and "tasks (step v e s) = tasks s @ [\<lparr>task_id = now, content = c, completed = False\<rparr>]"
  then show ?thesis by simp
next
  assume "subseq (map task_id (tasks (step v e s))) (map task_id (tasks s))"
  then show ?thesis by (rule subseq_rev_drop_many)
qed

lemma step_appended_subseq: "subseq (appended s (step v e s)) (stamps [e])"
  using step_tasks [of e v s]
proof (elim disjE exE conjE)
  fix now eager c
  assume "e = Finish now eager"
    and "tasks (step v e s) = tasks s @ [\<lparr>task_id = now, content = c, completed = False\<rparr>]"
  then show ?thesis by (simp add: appended_def)
next
  assume "length (tasks (step v e s)) \<le> length (tasks s)"
  then show ?thesis by (simp add: appended_def)
qed

lemma stamps_Cons: "stamps (e # es) = stamps [e] @ stamps es"
  by (cases e) simp_all

lemma run_ids_subseq:
  "subseq (map task_id (tasks (run v evs s))) (map task_id (tasks s) @ stamps evs)"
proof (induction evs arbitrary: s)
  case Nil
  then show ?case by simp
next
  case (Cons e es)
  have "subseq (map task_id (tasks (run v es (step v e s))))
          (map task_id (tasks (step v e s)) @ stamps es)"
    by (rule Cons.IH)
  also have "subseq (map task_id (tasks (step v e s)) @ stamps es)
          ((map task_id (tasks s) @ stamps [e]) @ stamps es)"
    by (rule list_emb_append_mono [OF step_ids_subseq]) simp
  finally show ?case
    by (simp add: stamps_Cons [of e es])
qed

lemma issued_subseq: "subseq (issued v evs s) (stamps evs)"
proof (induction evs arbitrary: s)
  case Nil
  then show ?case by simp
next
  case (Cons e es)
  have "subseq (appended s (step v e s) @ issued v es (step v e s)) (stamps [e] @ stamps es)"
    by (rule list_emb_append_mono [OF step_appended_subseq Cons.IH])
  then show ?case
    by (simp add: stamps_Cons [of e es])
qed

text \<open>
  Claim C2, amended. When the values of \<open>Date.now()\<close> read at the confirmations of a run
  are pairwise different, the task list reached has pairwise different identifiers and no
  identifier is given to two of the tasks appended during the run, whatever the events.
\<close>

theorem ids_unique_for_distinct_clock_readings:
  assumes "distinct (stamps evs)"
  shows "distinct (map task_id (tasks (run v evs (initial_state supported))))
    \<and> distinct (issued v evs (initial_state supported))"
proof
  have "subseq (map task_id (tasks (run v evs (initial_state supported))))
          (map task_id (tasks (initial_state supported)) @ stamps evs)"
    by (rule run_ids_subseq)
  then have "subseq (map task_id (tasks (run v evs (initial_state supported)))) (stamps evs)"
    by (simp add: initial_state_def)
  then show "distinct (map task_id (tasks (run v evs (initial_state supported))))"
    using assms by (rule subseq_distinct_ids)
  show "distinct (issued v evs (initial_state supported))"
    using issued_subseq assms by (rule subseq_distinct_ids)
qed

lemma match_add_task_a:
  "findBestCommandMatch ''add task a'' = \<lparr>command = ''add'', cmd_content = ''a''\<rparr>"
  by code_simp

lemma match_add_task_b:
  "findBestCommandMatch ''add task b'' = \<lparr>command = ''add'', cmd_content = ''b''\<rparr>"
  by code_simp

lemma trim_add_task_ab: "trim ''add task a'' \<noteq> []" "trim ''add task b'' \<noteq> []"
  by code_simp+

lemmas run_simps = initial_state_def toggleListening_def clearInputs_def onstart_def
  thenEffect_def listeningEffect_def setupSpeechGrammars_def
  onresult_def Let_def finishCurrentCommand_def processVoiceCommand_def
  processVoiceCommand_regex_def addTask_def match_add_task_a match_add_task_b trim_add_task_ab

lemma same_millisecond_tasks:
  "map_option tasks (runOffered RegexMatcher same_millisecond (initial_state True))
     = Some [\<lparr>task_id = 1000, content = ''a'', completed = False\<rparr>,
             \<lparr>task_id = 1000, content = ''b'', completed = False\<rparr>]"
  by (simp add: same_millisecond_def run_simps)

lemma next_millisecond_tasks:
  "tasks (run RegexMatcher next_millisecond (initial_state True))
     = [\<lparr>task_id = 1000, content = ''a'', completed = False\<rparr>,
        \<lparr>task_id = 1001, content = ''b'', completed = False\<rparr>]"
  by (simp add: next_millisecond_def run_simps)

theorem ids_unique_for_distinct_clock_readings_witness:
  "distinct (map task_id (tasks (run RegexMatcher next_millisecond (initial_state True))))
   \<and> distinct (issued RegexMatcher next_millisecond (initial_state True))
   \<and> length (tasks (run RegexMatcher next_millisecond (initial_state True))) = 2"
proof -
  have "distinct (stamps next_millisecond)"
    by (simp add: next_millisecond_def)
  from ids_unique_for_distinct_clock_readings [OF this, of RegexMatcher True]
  show ?thesis
    by (simp add: next_millisecond_tasks)
qed

text \<open>
  Claim C2 as stated fails: two tasks added while \<open>Date.now()\<close> returns the same value get
  the same identifier.
\<close>

theorem same_millisecond_ids_counterexample:
  "map_option (map task_id) (map_option tasks
      (runOffered RegexMatcher same_millisecond (initial_state True))) = Some [1000, 1000]
   \<and> \<not> distinct [1000, 1000 :: int]"
  by (simp add: same_millisecond_tasks)

end
